theory Spec2Isabelle
  imports Main
begin

section \<open>The change-application engine of aidx (\<open>runApply\<close>)\<close>

text \<open>
  The embedding follows \<open>runApply\<close> of version 1.0.6 (the second file of
  \<open>src/unnamed/part_000\<close>); the \<open>apply\<close> action of \<open>src/src/index.ts\<close> (1.0.1) has the
  same extraction, preview and apply loops.  The \<open>apply\<close> action of version 1.0.0 (the first
  file of \<open>src/unnamed/part_000\<close>) differs in the guard of its preview (a flag \<open>fileExists\<close>
  in place of the truthiness of the old content) and in its apply loop; the apply loop is
  embedded separately as \<open>apply_update_v100\<close>, the preview of 1.0.0 is not embedded.

  JavaScript strings are modelled as \<open>string\<close>: one \<open>char\<close> stands for one code unit, so
  the texts covered are those whose code units lie below 256.
\<close>

subsection \<open>Console output\<close>

text \<open>
  The cause of a rejected file-system promise: the error's \<open>code\<close>, which also stands for its
  \<open>message\<close>.
\<close>

datatype errno = ENOENT | EACCES | EPERM | ENOSPC | EISDIR | ENOTDIR | EIO

text \<open>
  One constructor for each \<open>console.log\<close> and \<open>process.stdout.write\<close> of the embedded
  code; the colour wrappers are left out, the interpolated values are kept.
\<close>

datatype out =
    ReadingClipboard
  | ClipboardError
  | NoValidTags
  | Found nat
  | PathBanner string
  | DeleteMark
  | NewFileMark
  | AddedHunk string
  | RemovedHunk string
  | Truncated
  | Blank
  | Separator
  | Aborted
  | BackupSaved
  | BackupSavedTo string
  | Deleted string
  | SkippedDelete string
  | Wrote string
  | ErrorLine string errno
  | Done

subsection \<open>The file system\<close>

text \<open>
  The state the program acts on: the regular files with their contents, the directories, and
  the console written so far.  Paths are the absolute paths \<open>path.resolve\<close> returns.
\<close>

record world =
  files :: "string \<rightharpoonup> string"
  dirs :: "string set"
  console :: "out list"

text \<open>
  The calls of \<open>fs/promises\<close> the program makes.  A call that needs a regular file fails
  with \<open>ENOENT\<close> when nothing stands at the path and with \<open>EISDIR\<close> when a directory
  stands there; \<open>access\<close> succeeds on a file and on a directory.  Every other failure
  (permissions, exhausted storage) is decided by the environment, a function from the call
  to the error it is rejected with.  A rejected call leaves the file system as it was.
\<close>

datatype fsop =
    ReadFile string
  | Access string
  | CopyFile string string
  | Unlink string
  | Mkdir string
  | WriteFile string

type_synonym faults = "fsop \<Rightarrow> errno option"

definition say :: "out \<Rightarrow> world \<Rightarrow> world" where
  "say x w = w\<lparr>console := console w @ [x]\<rparr>"

definition no_file :: "world \<Rightarrow> string \<Rightarrow> errno" where
  "no_file w p = (if p \<in> dirs w then EISDIR else ENOENT)"

definition readFile :: "faults \<Rightarrow> string \<Rightarrow> world \<Rightarrow> errno + string" where
  "readFile flt p w =
     (case flt (ReadFile p) of
        Some e \<Rightarrow> Inl e
      | None \<Rightarrow> (case files w p of None \<Rightarrow> Inl (no_file w p) | Some c \<Rightarrow> Inr c))"

definition access :: "faults \<Rightarrow> string \<Rightarrow> world \<Rightarrow> errno + unit" where
  "access flt p w =
     (case flt (Access p) of
        Some e \<Rightarrow> Inl e
      | None \<Rightarrow>
          (case files w p of
             None \<Rightarrow> (if p \<in> dirs w then Inr () else Inl ENOENT)
           | Some c \<Rightarrow> Inr ()))"

definition copyFile :: "faults \<Rightarrow> string \<Rightarrow> string \<Rightarrow> world \<Rightarrow> errno + world" where
  "copyFile flt src dst w =
     (case flt (CopyFile src dst) of
        Some e \<Rightarrow> Inl e
      | None \<Rightarrow>
          (case files w src of
             None \<Rightarrow> Inl (no_file w src)
           | Some c \<Rightarrow> Inr (w\<lparr>files := (files w)(dst \<mapsto> c)\<rparr>)))"

definition unlink :: "faults \<Rightarrow> string \<Rightarrow> world \<Rightarrow> errno + world" where
  "unlink flt p w =
     (case flt (Unlink p) of
        Some e \<Rightarrow> Inl e
      | None \<Rightarrow>
          (case files w p of
             None \<Rightarrow> Inl (no_file w p)
           | Some c \<Rightarrow> Inr (w\<lparr>files := (files w)(p := None)\<rparr>)))"

text \<open>
  \<open>mkdir(d, {recursive: true})\<close>: succeeds on a directory that is there already; the chain of
  missing intermediate directories is represented by \<open>d\<close> itself.
\<close>

definition mkdir :: "faults \<Rightarrow> string \<Rightarrow> world \<Rightarrow> errno + world" where
  "mkdir flt d w =
     (case flt (Mkdir d) of
        Some e \<Rightarrow> Inl e
      | None \<Rightarrow> Inr (w\<lparr>dirs := insert d (dirs w)\<rparr>))"

definition writeFile :: "faults \<Rightarrow> string \<Rightarrow> string \<Rightarrow> world \<Rightarrow> errno + world" where
  "writeFile flt p c w =
     (case flt (WriteFile p) of
        Some e \<Rightarrow> Inl e
      | None \<Rightarrow> Inr (w\<lparr>files := (files w)(p \<mapsto> c)\<rparr>))"

subsection \<open>Change directives\<close>

text \<open>The elements of \<open>updates\<close>: \<open>{ type: 'write' | 'delete', path: string, content?: string }\<close>.\<close>

datatype utype = TWrite | TDelete

record update =
  utype :: utype
  upath :: string
  ucontent :: "string option"

text \<open>\<open>update.content || ''\<close>: an absent and an empty content both give the empty string.\<close>

definition content_or_empty :: "string option \<Rightarrow> string" where
  "content_or_empty c = (case c of None \<Rightarrow> [] | Some s \<Rightarrow> (if s = [] then [] else s))"

text \<open>The backup sibling: the target path with \<open>.bak\<close> appended.\<close>

definition bak :: "string \<Rightarrow> string" where
  "bak targetPath = targetPath @ ''.bak''"

subsection \<open>Regular expressions\<close>

text \<open>
  The two regular expressions of \<open>runApply\<close> are embedded as backtracking matchers in
  continuation-passing style, the way ECMAScript defines matching: a matcher takes the rest of
  the pattern as a continuation and the rest of the input, and answers \<open>None\<close> on failure.
  Neither expression has an anchor, a look-around or a back reference, so a match at a
  position depends on the input from that position on only.
\<close>

abbreviation dq :: char where "dq \<equiv> CHR 0x22"
abbreviation sq :: char where "sq \<equiv> CHR 0x27"
abbreviation bt :: char where "bt \<equiv> CHR 0x60"

text \<open>\<open>\s\<close>: the white space and line terminator code units below 256.\<close>

definition is_space :: "char \<Rightarrow> bool" where
  "is_space c =
     (c \<in> set [CHR 0x09, CHR 0x0A, CHR 0x0B, CHR 0x0C, CHR 0x0D, CHR 0x20, CHR 0xA0])"

definition is_line_terminator :: "char \<Rightarrow> bool" where
  "is_line_terminator c = (c = CHR 0x0A \<or> c = CHR 0x0D)"

text \<open>\<open>.\<close> (without the \<open>s\<close> flag), \<open>[\s\S]\<close> and \<open>["']\<close>.\<close>

definition dot :: "char \<Rightarrow> bool" where
  "dot c = (\<not> is_line_terminator c)"

definition any_char :: "char \<Rightarrow> bool" where
  "any_char c = True"

definition is_quote :: "char \<Rightarrow> bool" where
  "is_quote c = (c = dq \<or> c = sq)"

text \<open>
  The \<open>i\<close> flag compares canonicalised code units.  Without the \<open>u\<close> flag a code unit
  from 128 on is never mapped to one below 128, and the patterns hold ASCII only, so the
  upper-casing of the ASCII letters decides every comparison.
\<close>

definition canon :: "char \<Rightarrow> char" where
  "canon c =
     (case map_of (zip ''abcdefghijklmnopqrstuvwxyz'' ''ABCDEFGHIJKLMNOPQRSTUVWXYZ'') c of
        None \<Rightarrow> c
      | Some u \<Rightarrow> u)"

type_synonym 'r matcher = "string \<Rightarrow> 'r option"

text \<open>A sequence of literal characters.\<close>

fun lit :: "string \<Rightarrow> 'r matcher \<Rightarrow> 'r matcher" where
  "lit [] k s = k s"
| "lit (p # ps) k [] = None"
| "lit (p # ps) k (c # cs) = (if canon p = canon c then lit ps k cs else None)"

text \<open>One character of a class.\<close>

definition chr :: "(char \<Rightarrow> bool) \<Rightarrow> 'r matcher \<Rightarrow> 'r matcher" where
  "chr P k s = (case s of [] \<Rightarrow> None | c # cs \<Rightarrow> (if P c then k cs else None))"

text \<open>
  The greedy \<open>X*\<close> tries one more character first and falls back to the continuation;
  \<open>X+\<close> is \<open>XX*\<close>.
\<close>

fun star :: "(char \<Rightarrow> bool) \<Rightarrow> 'r matcher \<Rightarrow> 'r matcher" where
  "star P k [] = k []"
| "star P k (c # cs) =
     (if P c
      then (case star P k cs of Some r \<Rightarrow> Some r | None \<Rightarrow> k (c # cs))
      else k (c # cs))"

definition plus1 :: "(char \<Rightarrow> bool) \<Rightarrow> 'r matcher \<Rightarrow> 'r matcher" where
  "plus1 P k = chr P (star P k)"

text \<open>
  The lazy capturing \<open>(X*?)\<close> tries the continuation first and takes one more character
  when it fails; the continuation receives the captured text.
\<close>

fun lazy_from :: "(char \<Rightarrow> bool) \<Rightarrow> (string \<Rightarrow> 'r matcher) \<Rightarrow> string \<Rightarrow> 'r matcher" where
  "lazy_from P k acc [] = k acc []"
| "lazy_from P k acc (c # cs) =
     (case k acc (c # cs) of
        Some r \<Rightarrow> Some r
      | None \<Rightarrow> (if P c then lazy_from P k (acc @ [c]) cs else None))"

definition lazy_star :: "(char \<Rightarrow> bool) \<Rightarrow> (string \<Rightarrow> 'r matcher) \<Rightarrow> 'r matcher" where
  "lazy_star P k = lazy_from P k []"

text \<open>
  \<open>/<file\s+path=["'](.*?)["']\s*>([\s\S]*?)<\/file>/gi\<close>: a match gives \<open>match[1]\<close>,
  \<open>match[2]\<close> and the input that follows the match (from the new \<open>lastIndex\<close> on).
\<close>

definition fileRegex :: "(string \<times> string \<times> string) matcher" where
  "fileRegex =
     lit ''<file'' (plus1 is_space (lit ''path='' (chr is_quote (lazy_star dot (\<lambda>path.
       chr is_quote (star is_space (lit ''>'' (lazy_star any_char (\<lambda>body.
         lit ''</file>'' (\<lambda>rest. Some (path, body, rest)))))))))))"

text \<open>\<open>/<delete\s+path=["'](.*?)["']\s*\/>/gi\<close>\<close>

definition deleteRegex :: "(string \<times> string) matcher" where
  "deleteRegex =
     lit ''<delete'' (plus1 is_space (lit ''path='' (chr is_quote (lazy_star dot (\<lambda>path.
       chr is_quote (star is_space (lit ''/>'' (\<lambda>rest. Some (path, rest)))))))))"

text \<open>\<open>regex.exec\<close> from \<open>lastIndex\<close>: the leftmost position where the expression matches.\<close>

fun exec :: "'r matcher \<Rightarrow> 'r matcher" where
  "exec m [] = m []"
| "exec m (c # cs) = (case m (c # cs) of Some r \<Rightarrow> Some r | None \<Rightarrow> exec m cs)"

text \<open>What a successful match has read: the pieces of the input, in order.\<close>

lemma lit_sound:
  "lit pat k s = Some x \<Longrightarrow> \<exists>m s'. s = m @ s' \<and> map canon m = map canon pat \<and> k s' = Some x"
proof (induction pat k s rule: lit.induct)
  case (1 k s)
  then show ?case by simp
next
  case (2 p ps k)
  then show ?case by simp
next
  case (3 p ps k c cs)
  from "3.prems" have eq: "canon p = canon c" and rest: "lit ps k cs = Some x"
    by (auto split: if_splits)
  from "3.IH"[OF eq rest] obtain m s'
    where "cs = m @ s'" "map canon m = map canon ps" "k s' = Some x"
    by blast
  then have "c # cs = (c # m) @ s' \<and> map canon (c # m) = map canon (p # ps) \<and> k s' = Some x"
    using eq by simp
  then show ?case by blast
qed

lemma chr_sound:
  "chr P k s = Some x \<Longrightarrow> \<exists>c s'. s = c # s' \<and> P c \<and> k s' = Some x"
  by (auto simp: chr_def split: list.splits if_splits)

lemma star_sound:
  "star P k s = Some x \<Longrightarrow> \<exists>m s'. s = m @ s' \<and> list_all P m \<and> k s' = Some x"
proof (induction s)
  case Nil
  then show ?case by simp
next
  case (Cons c cs)
  show ?case
  proof (cases "P c \<and> star P k cs \<noteq> None")
    case True
    with Cons.prems have "star P k cs = Some x" by auto
    from Cons.IH[OF this] obtain m s' where "cs = m @ s'" "list_all P m" "k s' = Some x"
      by blast
    with True have "c # cs = (c # m) @ s' \<and> list_all P (c # m) \<and> k s' = Some x" by simp
    then show ?thesis by blast
  next
    case False
    with Cons.prems have "k (c # cs) = Some x" by (auto split: if_splits option.splits)
    then have "c # cs = [] @ (c # cs) \<and> list_all P [] \<and> k (c # cs) = Some x" by simp
    then show ?thesis by blast
  qed
qed

lemma lazy_from_sound:
  "lazy_from P k acc s = Some x \<Longrightarrow>
   \<exists>m s'. s = m @ s' \<and> list_all P m \<and> k (acc @ m) s' = Some x"
proof (induction s arbitrary: acc)
  case Nil
  then show ?case by simp
next
  case (Cons c cs)
  show ?case
  proof (cases "k acc (c # cs)")
    case (Some r)
    with Cons.prems have "k (acc @ []) (c # cs) = Some x" by simp
    then have "c # cs = [] @ (c # cs) \<and> list_all P [] \<and> k (acc @ []) (c # cs) = Some x"
      by simp
    then show ?thesis by blast
  next
    case None
    with Cons.prems have pc: "P c" and rest: "lazy_from P k (acc @ [c]) cs = Some x"
      by (auto split: if_splits)
    from Cons.IH[OF rest] obtain m s'
      where "cs = m @ s'" "list_all P m" "k ((acc @ [c]) @ m) s' = Some x"
      by blast
    with pc have "c # cs = (c # m) @ s' \<and> list_all P (c # m) \<and> k (acc @ (c # m)) s' = Some x"
      by simp
    then show ?thesis by blast
  qed
qed

lemma exec_sound:
  "exec m s = Some x \<Longrightarrow> \<exists>pre s'. s = pre @ s' \<and> m s' = Some x"
proof (induction s)
  case Nil
  then show ?case by simp
next
  case (Cons c cs)
  show ?case
  proof (cases "m (c # cs)")
    case None
    with Cons.prems have "exec m cs = Some x" by simp
    from Cons.IH[OF this] obtain pre s' where "cs = pre @ s'" "m s' = Some x" by blast
    then have "c # cs = (c # pre) @ s' \<and> m s' = Some x" by simp
    then show ?thesis by blast
  next
    case (Some r)
    with Cons.prems have "c # cs = [] @ (c # cs) \<and> m (c # cs) = Some x" by simp
    then show ?thesis by blast
  qed
qed

lemma fileRegex_sound:
  assumes "fileRegex s = Some (path, body, rest)"
  shows "\<exists>kw ws attr q1 q2 ws2 gt cl.
           s = kw @ ws @ attr @ q1 # path @ q2 # ws2 @ gt @ body @ cl @ rest
         \<and> map canon kw = map canon ''<file'' \<and> ws \<noteq> [] \<and> list_all is_space ws
         \<and> map canon attr = map canon ''path='' \<and> is_quote q1 \<and> list_all dot path
         \<and> is_quote q2 \<and> list_all is_space ws2 \<and> map canon gt = map canon ''>''
         \<and> map canon cl = map canon ''</file>''"
proof -
  from assms obtain kw s1 where 1: "s = kw @ s1" "map canon kw = map canon ''<file''"
    and k1: "plus1 is_space (lit ''path='' (chr is_quote (lazy_star dot (\<lambda>path.
       chr is_quote (star is_space (lit ''>'' (lazy_star any_char (\<lambda>body.
         lit ''</file>'' (\<lambda>rest. Some (path, body, rest)))))))))) s1 = Some (path, body, rest)"
    unfolding fileRegex_def by (blast dest: lit_sound)
  from k1 obtain c s2 where 2: "s1 = c # s2" "is_space c"
    and k2: "star is_space (lit ''path='' (chr is_quote (lazy_star dot (\<lambda>path.
       chr is_quote (star is_space (lit ''>'' (lazy_star any_char (\<lambda>body.
         lit ''</file>'' (\<lambda>rest. Some (path, body, rest)))))))))) s2 = Some (path, body, rest)"
    unfolding plus1_def by (blast dest: chr_sound)
  from k2 obtain w s3 where 3: "s2 = w @ s3" "list_all is_space w"
    and k3: "lit ''path='' (chr is_quote (lazy_star dot (\<lambda>path.
       chr is_quote (star is_space (lit ''>'' (lazy_star any_char (\<lambda>body.
         lit ''</file>'' (\<lambda>rest. Some (path, body, rest))))))))) s3 = Some (path, body, rest)"
    by (blast dest: star_sound)
  from k3 obtain attr s4 where 4: "s3 = attr @ s4" "map canon attr = map canon ''path=''"
    and k4: "chr is_quote (lazy_star dot (\<lambda>path.
       chr is_quote (star is_space (lit ''>'' (lazy_star any_char (\<lambda>body.
         lit ''</file>'' (\<lambda>rest. Some (path, body, rest)))))))) s4 = Some (path, body, rest)"
    by (blast dest: lit_sound)
  from k4 obtain q1 s5 where 5: "s4 = q1 # s5" "is_quote q1"
    and k5: "lazy_from dot (\<lambda>path.
       chr is_quote (star is_space (lit ''>'' (lazy_star any_char (\<lambda>body.
         lit ''</file>'' (\<lambda>rest. Some (path, body, rest))))))) [] s5 = Some (path, body, rest)"
    unfolding lazy_star_def by (blast dest: chr_sound)
  from lazy_from_sound[OF k5] obtain pth s6 where 6: "s5 = pth @ s6" "list_all dot pth"
    and k6: "chr is_quote (star is_space (lit ''>'' (lazy_star any_char (\<lambda>body.
         lit ''</file>'' (\<lambda>rest. Some (pth, body, rest)))))) s6 = Some (path, body, rest)"
    by auto
  from k6 obtain q2 s7 where 7: "s6 = q2 # s7" "is_quote q2"
    and k7: "star is_space (lit ''>'' (lazy_star any_char (\<lambda>body.
         lit ''</file>'' (\<lambda>rest. Some (pth, body, rest))))) s7 = Some (path, body, rest)"
    by (blast dest: chr_sound)
  from k7 obtain ws2 s8 where 8: "s7 = ws2 @ s8" "list_all is_space ws2"
    and k8: "lit ''>'' (lazy_star any_char (\<lambda>body.
         lit ''</file>'' (\<lambda>rest. Some (pth, body, rest)))) s8 = Some (path, body, rest)"
    by (blast dest: star_sound)
  from k8 obtain gt s9 where 9: "s8 = gt @ s9" "map canon gt = map canon ''>''"
    and k9: "lazy_from any_char (\<lambda>body.
         lit ''</file>'' (\<lambda>rest. Some (pth, body, rest))) [] s9 = Some (path, body, rest)"
    unfolding lazy_star_def by (blast dest: lit_sound)
  from lazy_from_sound[OF k9] obtain bdy s10 where 10: "s9 = bdy @ s10"
    and k10: "lit ''</file>'' (\<lambda>rest. Some (pth, bdy, rest)) s10 = Some (path, body, rest)"
    by auto
  from lit_sound[OF k10] obtain cl s11
    where 11: "s10 = cl @ s11" "map canon cl = map canon ''</file>''"
    and k11: "Some (pth, bdy, s11) = Some (path, body, rest)"
    by blast
  from k11 have e: "pth = path" "bdy = body" "s11 = rest" by auto
  have "s = kw @ (c # w) @ attr @ q1 # path @ q2 # ws2 @ gt @ body @ cl @ rest"
    using 1 2 3 4 5 6 7 8 9 10 11 e by simp
  moreover have "c # w \<noteq> []" "list_all is_space (c # w)" using 2 3 by auto
  ultimately show ?thesis
    using 1 4 5 6 7 8 9 11 e by blast
qed

lemma deleteRegex_sound:
  assumes "deleteRegex s = Some (path, rest)"
  shows "\<exists>kw ws attr q1 q2 ws2 cl.
           s = kw @ ws @ attr @ q1 # path @ q2 # ws2 @ cl @ rest
         \<and> map canon kw = map canon ''<delete'' \<and> ws \<noteq> [] \<and> list_all is_space ws
         \<and> map canon attr = map canon ''path='' \<and> is_quote q1 \<and> list_all dot path
         \<and> is_quote q2 \<and> list_all is_space ws2 \<and> map canon cl = map canon ''/>''"
proof -
  from assms obtain kw s1 where 1: "s = kw @ s1" "map canon kw = map canon ''<delete''"
    and k1: "plus1 is_space (lit ''path='' (chr is_quote (lazy_star dot (\<lambda>path.
       chr is_quote (star is_space (lit ''/>'' (\<lambda>rest. Some (path, rest)))))))) s1
       = Some (path, rest)"
    unfolding deleteRegex_def by (blast dest: lit_sound)
  from k1 obtain c s2 where 2: "s1 = c # s2" "is_space c"
    and k2: "star is_space (lit ''path='' (chr is_quote (lazy_star dot (\<lambda>path.
       chr is_quote (star is_space (lit ''/>'' (\<lambda>rest. Some (path, rest)))))))) s2
       = Some (path, rest)"
    unfolding plus1_def by (blast dest: chr_sound)
  from k2 obtain w s3 where 3: "s2 = w @ s3" "list_all is_space w"
    and k3: "lit ''path='' (chr is_quote (lazy_star dot (\<lambda>path.
       chr is_quote (star is_space (lit ''/>'' (\<lambda>rest. Some (path, rest))))))) s3
       = Some (path, rest)"
    by (blast dest: star_sound)
  from k3 obtain attr s4 where 4: "s3 = attr @ s4" "map canon attr = map canon ''path=''"
    and k4: "chr is_quote (lazy_star dot (\<lambda>path.
       chr is_quote (star is_space (lit ''/>'' (\<lambda>rest. Some (path, rest)))))) s4
       = Some (path, rest)"
    by (blast dest: lit_sound)
  from k4 obtain q1 s5 where 5: "s4 = q1 # s5" "is_quote q1"
    and k5: "lazy_from dot (\<lambda>path.
       chr is_quote (star is_space (lit ''/>'' (\<lambda>rest. Some (path, rest))))) [] s5
       = Some (path, rest)"
    unfolding lazy_star_def by (blast dest: chr_sound)
  from lazy_from_sound[OF k5] obtain pth s6 where 6: "s5 = pth @ s6" "list_all dot pth"
    and k6: "chr is_quote (star is_space (lit ''/>'' (\<lambda>rest. Some (pth, rest)))) s6
       = Some (path, rest)"
    by auto
  from k6 obtain q2 s7 where 7: "s6 = q2 # s7" "is_quote q2"
    and k7: "star is_space (lit ''/>'' (\<lambda>rest. Some (pth, rest))) s7 = Some (path, rest)"
    by (blast dest: chr_sound)
  from k7 obtain ws2 s8 where 8: "s7 = ws2 @ s8" "list_all is_space ws2"
    and k8: "lit ''/>'' (\<lambda>rest. Some (pth, rest)) s8 = Some (path, rest)"
    by (blast dest: star_sound)
  from lit_sound[OF k8] obtain cl s9
    where 9: "s8 = cl @ s9" "map canon cl = map canon ''/>''"
    and k9: "Some (pth, s9) = Some (path, rest)"
    by blast
  from k9 have e: "pth = path" "s9 = rest" by auto
  have "s = kw @ (c # w) @ attr @ q1 # path @ q2 # ws2 @ cl @ rest"
    using 1 2 3 4 5 6 7 8 9 e by simp
  moreover have "c # w \<noteq> []" "list_all is_space (c # w)" using 2 3 by auto
  ultimately show ?thesis
    using 1 4 5 6 7 8 9 e by blast
qed

lemma exec_fileRegex_shorter:
  assumes "exec fileRegex s = Some (path, body, rest)"
  shows "length rest < length s"
proof -
  from exec_sound[OF assms] obtain pre s' where s: "s = pre @ s'"
    and m: "fileRegex s' = Some (path, body, rest)"
    by blast
  from fileRegex_sound[OF m] obtain kw t where s': "s' = kw @ t @ rest"
    and kw: "map canon kw = map canon ''<file''"
    by (metis append.assoc append_Cons)
  from kw have "length (map canon kw) = length (map canon ''<file'')" by (simp only:)
  then have "length kw = 5" by simp
  with s s' show ?thesis by simp
qed

lemma exec_deleteRegex_shorter:
  assumes "exec deleteRegex s = Some (path, rest)"
  shows "length rest < length s"
proof -
  from exec_sound[OF assms] obtain pre s' where s: "s = pre @ s'"
    and m: "deleteRegex s' = Some (path, rest)"
    by blast
  from deleteRegex_sound[OF m] obtain kw t where s': "s' = kw @ t @ rest"
    and kw: "map canon kw = map canon ''<delete''"
    by (metis append.assoc append_Cons)
  from kw have "length (map canon kw) = length (map canon ''<delete'')" by (simp only:)
  then have "length kw = 7" by simp
  with s s' show ?thesis by simp
qed

subsection \<open>Extraction\<close>

text \<open>
  The two \<open>while ((match = regex.exec(cleanedContent)) !== null)\<close> loops: each match is
  recorded and the search goes on behind it.
\<close>

function file_matches :: "string \<Rightarrow> (string \<times> string) list" where
  "file_matches s =
     (case exec fileRegex s of
        None \<Rightarrow> []
      | Some (path, body, rest) \<Rightarrow> (path, body) # file_matches rest)"
  by pat_completeness auto
termination
  by (relation "measure length") (auto dest: exec_fileRegex_shorter)

function delete_matches :: "string \<Rightarrow> string list" where
  "delete_matches s =
     (case exec deleteRegex s of
        None \<Rightarrow> []
      | Some (path, rest) \<Rightarrow> path # delete_matches rest)"
  by pat_completeness auto
termination
  by (relation "measure length") (auto dest: exec_deleteRegex_shorter)

declare file_matches.simps [simp del] delete_matches.simps [simp del]

text \<open>
  \<open>text.replace(/pat/g, '')\<close> for a pattern of literal characters: every occurrence, found
  from left to right, is left out.  (An empty pattern would match the empty string
  everywhere and change nothing.)
\<close>

fun strip_prefix :: "string \<Rightarrow> string \<Rightarrow> string option" where
  "strip_prefix [] s = Some s"
| "strip_prefix (p # ps) [] = None"
| "strip_prefix (p # ps) (c # cs) = (if p = c then strip_prefix ps cs else None)"

lemma strip_prefix_length:
  "strip_prefix pat s = Some r \<Longrightarrow> length r + length pat = length s"
  by (induction pat s rule: strip_prefix.induct) (auto split: if_splits)

function remove_all :: "string \<Rightarrow> string \<Rightarrow> string" where
  "remove_all pat [] = []"
| "remove_all pat (c # cs) =
     (if pat = [] then c # cs
      else (case strip_prefix pat (c # cs) of
              Some r \<Rightarrow> remove_all pat r
            | None \<Rightarrow> c # remove_all pat cs))"
  by pat_completeness auto
termination
proof (relation "measure (\<lambda>(pat, s). length s)")
  fix pat :: string and c cs r
  assume ne: "pat \<noteq> []" and sp: "strip_prefix pat (c # cs) = Some r"
  from strip_prefix_length[OF sp] have "length r + length pat = Suc (length cs)"
    by simp
  moreover from ne obtain p ps where "pat = p # ps"
    by (cases pat) auto
  ultimately show "((pat, r), (pat, c # cs)) \<in> measure (\<lambda>(pat, s). length s)"
    by simp
qed auto

text \<open>\<open>String.prototype.trim\<close> strips the characters of \<open>\s\<close> from both ends.\<close>

definition trim :: "string \<Rightarrow> string" where
  "trim s = rev (dropWhile is_space (rev (dropWhile is_space s)))"

text \<open>
  The fence markers are removed from the whole text: first every run of three backticks
  followed by \<open>xml\<close>, then every run of three backticks.
\<close>

definition cleanedContent :: "string \<Rightarrow> string" where
  "cleanedContent content = remove_all [bt, bt, bt] (remove_all ([bt, bt, bt] @ ''xml'') content)"

text \<open>
  The directive list: the matches of \<open>fileRegex\<close> first, then those of \<open>deleteRegex\<close>.
\<close>

definition extract_updates :: "string \<Rightarrow> update list" where
  "extract_updates content =
     map (\<lambda>(path, body). \<lparr>utype = TWrite, upath = path, ucontent = Some (trim body)\<rparr>)
         (file_matches (cleanedContent content))
     @ map (\<lambda>path. \<lparr>utype = TDelete, upath = path, ucontent = None\<rparr>)
         (delete_matches (cleanedContent content))"

subsection \<open>The apply loop\<close>

text \<open>
  The body of the second \<open>for (const update of updates)\<close> loop of \<open>runApply\<close>.  The two
  library functions \<open>path.resolve(process.cwd(), _)\<close> and \<open>path.dirname\<close> are parameters.
  The backup copy and the unlink each sit in a \<open>try\<close> whose \<open>catch\<close> is empty; \<open>mkdir\<close> and
  \<open>writeFile\<close> throw to the outer \<open>catch\<close>, which prints the error line.
\<close>

definition apply_update ::
  "faults \<Rightarrow> bool \<Rightarrow> (string \<Rightarrow> string) \<Rightarrow> (string \<Rightarrow> string) \<Rightarrow> update \<Rightarrow> world \<Rightarrow> world" where
  "apply_update flt backupsEnabled resolve dirname u w =
     (let targetPath = resolve (upath u) in
      if utype u = TDelete then
        (let w1 = (if backupsEnabled
                   then (case copyFile flt targetPath (bak targetPath) w of
                           Inl e \<Rightarrow> w
                         | Inr w' \<Rightarrow> w')
                   else w)
         in case unlink flt targetPath w1 of
              Inl e \<Rightarrow> w1
            | Inr w2 \<Rightarrow> say (Deleted (upath u)) w2)
      else
        (case mkdir flt (dirname targetPath) w of
           Inl e \<Rightarrow> say (ErrorLine (upath u) e) w
         | Inr w1 \<Rightarrow>
             (let w2 = (if backupsEnabled
                        then (case copyFile flt targetPath (bak targetPath) w1 of
                                Inl e \<Rightarrow> w1
                              | Inr w' \<Rightarrow> say BackupSaved w')
                        else w1)
              in case writeFile flt targetPath (content_or_empty (ucontent u)) w2 of
                   Inl e \<Rightarrow> say (ErrorLine (upath u) e) w2
                 | Inr w3 \<Rightarrow> say (Wrote (upath u)) w3)))"

text \<open>
  The environment may reject each call of each directive differently, in the preview as in
  the apply phase, so it is indexed by the phase and the directive's position in
  \<open>updates\<close>.
\<close>

datatype stage = Config | Preview nat | Apply nat

fun apply_loop ::
  "(stage \<Rightarrow> faults) \<Rightarrow> bool \<Rightarrow> (string \<Rightarrow> string) \<Rightarrow> (string \<Rightarrow> string) \<Rightarrow> nat \<Rightarrow>
   update list \<Rightarrow> world \<Rightarrow> world" where
  "apply_loop env backupsEnabled resolve dirname i [] w = w"
| "apply_loop env backupsEnabled resolve dirname i (u # us) w =
     apply_loop env backupsEnabled resolve dirname (Suc i) us
       (apply_update (env (Apply i)) backupsEnabled resolve dirname u w)"

subsection \<open>The preview loop\<close>

text \<open>
  A part of the result of \<open>Diff.diffLines\<close> (package \<open>diff\<close>): its text and its two flags.
  The function itself is a parameter of the embedding.
\<close>

record change =
  cvalue :: string
  added :: bool
  removed :: bool

text \<open>
  \<open>changes.forEach\<close> with its counter: the callback returns at once when \<open>count > 50\<close>,
  writes an added or a removed part and counts it, and passes over an unchanged part.
\<close>

fun render_changes :: "change list \<Rightarrow> nat \<times> world \<Rightarrow> nat \<times> world" where
  "render_changes [] (count, w) = (count, w)"
| "render_changes (part # parts) (count, w) =
     render_changes parts
       (if count > 50 then (count, w)
        else if added part then (count + 1, say (AddedHunk (cvalue part)) w)
        else if removed part then (count + 1, say (RemovedHunk (cvalue part)) w)
        else (count, w))"

text \<open>
  The body of the first \<open>for (const update of updates)\<close> loop.  \<open>originalContent\<close> starts
  empty and stays so when \<open>readFile\<close> is rejected; the diff is made when it is non-empty
  (truthy) and the directive has a content.
\<close>

definition preview_update ::
  "faults \<Rightarrow> (string \<Rightarrow> string) \<Rightarrow> (string \<Rightarrow> string \<Rightarrow> change list) \<Rightarrow> update \<Rightarrow> world \<Rightarrow> world"
  where
  "preview_update flt resolve diffLines u w =
     (let targetPath = resolve (upath u);
          w1 = say (PathBanner (upath u)) w;
          w2 = (if utype u = TDelete then say DeleteMark w1
                else
                  (let (originalContent, wr) =
                         (case readFile flt targetPath w1 of
                            Inl e \<Rightarrow> ([], say NewFileMark w1)
                          | Inr c \<Rightarrow> (c, w1))
                   in case ucontent u of
                        None \<Rightarrow> wr
                      | Some content \<Rightarrow>
                          if originalContent \<noteq> [] then
                            (let changes = diffLines originalContent content;
                                 (count, wd) = render_changes changes (0, wr);
                                 wt = (if count > 50 then say Truncated wd else wd)
                             in say Blank wt)
                          else wr))
      in say Separator w2)"

fun preview_loop ::
  "(stage \<Rightarrow> faults) \<Rightarrow> (string \<Rightarrow> string) \<Rightarrow> (string \<Rightarrow> string \<Rightarrow> change list) \<Rightarrow> nat \<Rightarrow>
   update list \<Rightarrow> world \<Rightarrow> world" where
  "preview_loop env resolve diffLines i [] w = w"
| "preview_loop env resolve diffLines i (u # us) w =
     preview_loop env resolve diffLines (Suc i) us
       (preview_update (env (Preview i)) resolve diffLines u w)"

subsection \<open>The command\<close>

text \<open>
  \<open>getBackupStatus\<close> reads \<open>.aidxrc.json\<close>; \<open>parse_backup\<close> stands for
  \<open>!!JSON.parse(data).backup\<close>, with \<open>None\<close> where that throws.  Every failure gives
  \<open>false\<close>.
\<close>

definition CONFIG_FILE :: string where
  "CONFIG_FILE = ''.aidxrc.json''"

definition getBackupStatus ::
  "faults \<Rightarrow> (string \<Rightarrow> string) \<Rightarrow> (string \<Rightarrow> bool option) \<Rightarrow> world \<Rightarrow> bool" where
  "getBackupStatus flt resolve parse_backup w =
     (case readFile flt (resolve CONFIG_FILE) w of
        Inl e \<Rightarrow> False
      | Inr data \<Rightarrow> (case parse_backup data of None \<Rightarrow> False | Some b \<Rightarrow> b))"

text \<open>
  The operator's decision: \<open>confirm\<close> resolves to a boolean, or it rejects (the prompt is
  closed or fails).
\<close>

datatype answer = Resolved bool | Rejected

text \<open>
  \<open>runApply\<close>.  \<open>clipboard\<close> is the result of \<open>clipboardy.read()\<close>, \<open>None\<close> when it
  throws.
\<close>

definition runApply ::
  "(stage \<Rightarrow> faults) \<Rightarrow> (string \<Rightarrow> string) \<Rightarrow> (string \<Rightarrow> string) \<Rightarrow>
   (string \<Rightarrow> string \<Rightarrow> change list) \<Rightarrow> (string \<Rightarrow> bool option) \<Rightarrow>
   string option \<Rightarrow> answer \<Rightarrow> world \<Rightarrow> world" where
  "runApply env resolve dirname diffLines parse_backup clipboard proceed w =
     (let backupsEnabled = getBackupStatus (env Config) resolve parse_backup w;
          w1 = say ReadingClipboard w
      in case clipboard of
           None \<Rightarrow> say ClipboardError w1
         | Some content \<Rightarrow>
             (let updates = extract_updates content in
              if length updates = 0 then say NoValidTags w1
              else
                (let w2 = say (Found (length updates)) w1;
                     w3 = preview_loop env resolve diffLines 0 updates w2
                 in case proceed of
                      Rejected \<Rightarrow> w3
                    | Resolved yes \<Rightarrow>
                        if \<not> yes then say Aborted w3
                        else
                          (let w4 = say Blank w3;
                               w5 = apply_loop env backupsEnabled resolve dirname 0 updates w4
                           in say Done w5))))"

subsection \<open>The apply loop of version 1.0.0\<close>

text \<open>
  The body of the apply loop of the \<open>apply\<close> action of version 1.0.0.  Its delete branch
  checks the target with \<open>fs.access\<close>, reports a missing target as skipped and throws
  every other error on to the outer \<open>catch\<close>.  \<open>path.basename\<close> is a parameter.
\<close>

definition delete_failed_v100 :: "update \<Rightarrow> errno \<Rightarrow> world \<Rightarrow> world" where
  "delete_failed_v100 u err w =
     (if err = ENOENT then say (SkippedDelete (upath u)) w
      else say (ErrorLine (upath u) err) w)"

definition backup_v100 ::
  "faults \<Rightarrow> (string \<Rightarrow> string) \<Rightarrow> string \<Rightarrow> world \<Rightarrow> errno + world" where
  "backup_v100 flt basename targetPath w =
     (case access flt targetPath w of
        Inl e \<Rightarrow> Inl e
      | Inr _ \<Rightarrow>
          (case copyFile flt targetPath (bak targetPath) w of
             Inl e \<Rightarrow> Inl e
           | Inr w' \<Rightarrow> Inr (say (BackupSavedTo (basename targetPath @ ''.bak'')) w')))"

definition apply_update_v100 ::
  "faults \<Rightarrow> bool \<Rightarrow> (string \<Rightarrow> string) \<Rightarrow> (string \<Rightarrow> string) \<Rightarrow> (string \<Rightarrow> string) \<Rightarrow>
   update \<Rightarrow> world \<Rightarrow> world" where
  "apply_update_v100 flt backupsEnabled resolve dirname basename u w =
     (let targetPath = resolve (upath u) in
      if utype u = TDelete then
        (case (if backupsEnabled then backup_v100 flt basename targetPath w else Inr w) of
           Inl e \<Rightarrow> delete_failed_v100 u e w
         | Inr w1 \<Rightarrow>
             (case access flt targetPath w1 of
                Inl e \<Rightarrow> delete_failed_v100 u e w1
              | Inr _ \<Rightarrow>
                  (case unlink flt targetPath w1 of
                     Inl e \<Rightarrow> delete_failed_v100 u e w1
                   | Inr w2 \<Rightarrow> say (Deleted (upath u)) w2)))
      else
        (case mkdir flt (dirname targetPath) w of
           Inl e \<Rightarrow> say (ErrorLine (upath u) e) w
         | Inr w1 \<Rightarrow>
             (let w2 = (if backupsEnabled
                        then (case backup_v100 flt basename targetPath w1 of
                                Inl e \<Rightarrow> w1
                              | Inr w' \<Rightarrow> w')
                        else w1)
              in case writeFile flt targetPath (content_or_empty (ucontent u)) w2 of
                   Inl e \<Rightarrow> say (ErrorLine (upath u) e) w2
                 | Inr w3 \<Rightarrow> say (Wrote (upath u)) w3)))"

section \<open>Notions the claims are stated with\<close>

text \<open>
  The definitions of this section are not part of the program: they name what the claims
  speak of, so that the theorems below can compare it with what the program computes.
\<close>

subsection \<open>Hunks and report lines on the console\<close>

fun is_hunk :: "out \<Rightarrow> bool" where
  "is_hunk (AddedHunk v) = True"
| "is_hunk (RemovedHunk v) = True"
| "is_hunk x = False"

fun is_report :: "out \<Rightarrow> bool" where
  "is_report (Wrote p) = True"
| "is_report (ErrorLine p e) = True"
| "is_report x = False"

text \<open>
  The report lines a confirmed run owes its directives: one line for each write directive, in
  the order of the list, which is the error line with the directive's path and the cause when
  the environment rejects \<open>mkdir\<close> or \<open>writeFile\<close>, and the success line otherwise.
\<close>

fun reports_expected ::
  "(stage \<Rightarrow> faults) \<Rightarrow> (string \<Rightarrow> string) \<Rightarrow> (string \<Rightarrow> string) \<Rightarrow> nat \<Rightarrow> update list \<Rightarrow> out list"
  where
  "reports_expected env resolve dirname i [] = []"
| "reports_expected env resolve dirname i (u # us) =
     (if utype u = TDelete then []
      else [case env (Apply i) (Mkdir (dirname (resolve (upath u)))) of
              Some e \<Rightarrow> ErrorLine (upath u) e
            | None \<Rightarrow>
                (case env (Apply i) (WriteFile (resolve (upath u))) of
                   Some e \<Rightarrow> ErrorLine (upath u) e
                 | None \<Rightarrow> Wrote (upath u))])
     @ reports_expected env resolve dirname (Suc i) us"

subsection \<open>What a confirmed run owes each directive\<close>

text \<open>
  The effect of one directive, told from the files that exist and from what the environment
  rejects, without the calls of the program.  A backup is taken when backups are enabled, a
  file stands at the target and the copy is not rejected; a rejected copy leaves the files as
  they are and costs the directive nothing else.

  A delete directive removes the file at the target when there is one and \<open>unlink\<close> is not
  rejected, and then prints its line; otherwise it prints nothing.  A write directive whose
  \<open>mkdir\<close> is rejected prints the error line and does nothing else; otherwise the parent
  directory exists afterwards, the backup is taken, and the target holds the directive's
  content (the empty text when it has none) unless \<open>writeFile\<close> is rejected, in which case
  the error line is printed in place of the success line.
\<close>

definition backed_up :: "faults \<Rightarrow> bool \<Rightarrow> string \<Rightarrow> world \<Rightarrow> bool" where
  "backed_up flt backupsEnabled t w =
     (backupsEnabled \<and> files w t \<noteq> None \<and> flt (CopyFile t (bak t)) = None)"

definition files_backed_up :: "faults \<Rightarrow> bool \<Rightarrow> string \<Rightarrow> world \<Rightarrow> (string \<rightharpoonup> string)" where
  "files_backed_up flt backupsEnabled t w =
     (if backed_up flt backupsEnabled t w then (files w)(bak t := files w t) else files w)"

definition directive_expected ::
  "faults \<Rightarrow> bool \<Rightarrow> (string \<Rightarrow> string) \<Rightarrow> (string \<Rightarrow> string) \<Rightarrow> update \<Rightarrow> world \<Rightarrow> world" where
  "directive_expected flt backupsEnabled resolve dirname u w =
     (let t = resolve (upath u);
          kept = files_backed_up flt backupsEnabled t w;
          saved = (if backed_up flt backupsEnabled t w then [BackupSaved] else [])
      in if utype u = TDelete then
           (if files w t \<noteq> None \<and> flt (Unlink t) = None
            then w\<lparr>files := kept(t := None), console := console w @ [Deleted (upath u)]\<rparr>
            else w\<lparr>files := kept\<rparr>)
         else
           (case flt (Mkdir (dirname t)) of
              Some e \<Rightarrow> w\<lparr>console := console w @ [ErrorLine (upath u) e]\<rparr>
            | None \<Rightarrow>
                (case flt (WriteFile t) of
                   Some e \<Rightarrow>
                     w\<lparr>files := kept, dirs := insert (dirname t) (dirs w),
                       console := console w @ saved @ [ErrorLine (upath u) e]\<rparr>
                 | None \<Rightarrow>
                     w\<lparr>files := kept(t \<mapsto> (case ucontent u of None \<Rightarrow> [] | Some c \<Rightarrow> c)),
                       dirs := insert (dirname t) (dirs w),
                       console := console w @ saved @ [Wrote (upath u)]\<rparr>)))"

text \<open>Every directive of the list in turn, each in the world its predecessors have left.\<close>

fun loop_expected ::
  "(stage \<Rightarrow> faults) \<Rightarrow> bool \<Rightarrow> (string \<Rightarrow> string) \<Rightarrow> (string \<Rightarrow> string) \<Rightarrow> nat \<Rightarrow>
   update list \<Rightarrow> world \<Rightarrow> world" where
  "loop_expected env backupsEnabled resolve dirname i [] w = w"
| "loop_expected env backupsEnabled resolve dirname i (u # us) w =
     loop_expected env backupsEnabled resolve dirname (Suc i) us
       (directive_expected (env (Apply i)) backupsEnabled resolve dirname u w)"

subsection \<open>Well-formed tags in a text\<close>

text \<open>
  \<open>starts_ci pat s\<close>: the text \<open>s\<close> begins with \<open>pat\<close>, letter case aside;
  \<open>occurs_ci pat s\<close>: \<open>pat\<close> occurs somewhere in \<open>s\<close>, letter case aside;
  \<open>same_ci a b\<close>: \<open>a\<close> is \<open>b\<close>, letter case aside.
\<close>

fun starts_ci :: "string \<Rightarrow> string \<Rightarrow> bool" where
  "starts_ci [] s = True"
| "starts_ci (p # ps) [] = False"
| "starts_ci (p # ps) (c # cs) = (canon p = canon c \<and> starts_ci ps cs)"

fun occurs_ci :: "string \<Rightarrow> string \<Rightarrow> bool" where
  "occurs_ci pat [] = starts_ci pat []"
| "occurs_ci pat (c # cs) = (starts_ci pat (c # cs) \<or> occurs_ci pat cs)"

definition same_ci :: "string \<Rightarrow> string \<Rightarrow> bool" where
  "same_ci a b = (map canon a = map canon b)"

text \<open>\<open>clear K x t\<close>: in the text \<open>x @ t\<close> the keyword \<open>K\<close> starts at no position of \<open>x\<close>.\<close>

fun clear :: "string \<Rightarrow> string \<Rightarrow> string \<Rightarrow> bool" where
  "clear K [] t = True"
| "clear K (c # cs) t = ((\<not> starts_ci K (c # cs @ t)) \<and> clear K cs t)"

text \<open>
  A tag as it is written in the text, piece by piece: the keyword with its angle bracket,
  the white space, the attribute name with its equals sign, the opening quote, the path, the
  closing quote, the white space before the end of the tag and, for a write tag, the body
  and the closing tag.
\<close>

datatype tag =
    FileTag string string string char string char string string string
  | DeleteTag string string string char string char string

fun render_tag :: "tag \<Rightarrow> string" where
  "render_tag (FileTag kw gap attr q1 path q2 gap2 body close) =
     kw @ gap @ attr @ q1 # path @ q2 # gap2 @ ''>'' @ body @ close"
| "render_tag (DeleteTag kw gap attr q1 path q2 gap2) =
     kw @ gap @ attr @ q1 # path @ q2 # gap2 @ ''/>''"

text \<open>
  A tag is well formed when its pieces are those of the grammar, its path holds no line
  terminator, no quote and no angle bracket, and the body of a write tag holds neither the
  closing tag nor the start of a delete tag.
\<close>

definition path_ok :: "string \<Rightarrow> bool" where
  "path_ok path = list_all (\<lambda>c. dot c \<and> \<not> is_quote c \<and> c \<noteq> CHR ''<'') path"

fun wf_tag :: "tag \<Rightarrow> bool" where
  "wf_tag (FileTag kw gap attr q1 path q2 gap2 body close) =
     (same_ci kw ''<file'' \<and> gap \<noteq> [] \<and> list_all is_space gap \<and> same_ci attr ''path=''
      \<and> is_quote q1 \<and> path_ok path \<and> is_quote q2 \<and> list_all is_space gap2
      \<and> \<not> occurs_ci ''</file>'' body \<and> \<not> occurs_ci ''<delete'' body
      \<and> same_ci close ''</file>'')"
| "wf_tag (DeleteTag kw gap attr q1 path q2 gap2) =
     (same_ci kw ''<delete'' \<and> gap \<noteq> [] \<and> list_all is_space gap \<and> same_ci attr ''path=''
      \<and> is_quote q1 \<and> path_ok path \<and> is_quote q2 \<and> list_all is_space gap2)"

text \<open>
  A text with tags: each tag with the prose before it, and the prose after the last tag.
  The prose holds the start of neither tag.
\<close>

definition prose_ok :: "string \<Rightarrow> bool" where
  "prose_ok x = ((\<not> occurs_ci ''<file'' x) \<and> (\<not> occurs_ci ''<delete'' x))"

fun render :: "(string \<times> tag) list \<Rightarrow> string \<Rightarrow> string" where
  "render [] tail = tail"
| "render ((x, t) # segs) tail = x @ render_tag t @ render segs tail"

definition wf_doc :: "(string \<times> tag) list \<Rightarrow> string \<Rightarrow> bool" where
  "wf_doc segs tail = (list_all (\<lambda>(x, t). prose_ok x \<and> wf_tag t) segs \<and> prose_ok tail)"

fun is_file_tag :: "tag \<Rightarrow> bool" where
  "is_file_tag (FileTag kw gap attr q1 path q2 gap2 body close) = True"
| "is_file_tag (DeleteTag kw gap attr q1 path q2 gap2) = False"

text \<open>The directive a well-formed tag stands for.\<close>

fun directive_of :: "tag \<Rightarrow> update" where
  "directive_of (FileTag kw gap attr q1 path q2 gap2 body close) =
     \<lparr>utype = TWrite, upath = path, ucontent = Some (trim body)\<rparr>"
| "directive_of (DeleteTag kw gap attr q1 path q2 gap2) =
     \<lparr>utype = TDelete, upath = path, ucontent = None\<rparr>"

subsection \<open>A tag as the expressions read it\<close>

text \<open>
  What follows a quote when the quote closes the path of a tag: white space and the end of
  the opening tag, with a closing tag somewhere after it, for a write tag; white space and
  \<open>/>\<close> for a delete tag.
\<close>

definition open_tag_ends :: "string \<Rightarrow> bool" where
  "open_tag_ends s =
     (case dropWhile is_space s of
        [] \<Rightarrow> False
      | c # r \<Rightarrow> c = CHR ''>'' \<and> occurs_ci ''</file>'' r)"

definition delete_tag_ends :: "string \<Rightarrow> bool" where
  "delete_tag_ends s = starts_ci ''/>'' (dropWhile is_space s)"

text \<open>
  \<open>shortest_path ends path t\<close>: in the text \<open>path @ t\<close> no quote inside \<open>path\<close> could
  close the path, so that the path is the shortest text between the opening quote and a
  closing one.
\<close>

fun shortest_path :: "(string \<Rightarrow> bool) \<Rightarrow> string \<Rightarrow> string \<Rightarrow> bool" where
  "shortest_path ends [] t = True"
| "shortest_path ends (c # cs) t = ((\<not> (is_quote c \<and> ends (cs @ t))) \<and> shortest_path ends cs t)"

text \<open>
  \<open>tag_read t post\<close>: the tag \<open>t\<close>, followed by the text \<open>post\<close>, is a tag of the grammar
  whose path is the shortest text without a line terminator between its quotes and, for a
  write tag, whose body is the whole text between the end of the opening tag and the first
  closing tag after it.  Unlike a well-formed tag, its path may be empty and may hold quotes
  and angle brackets, and its body may hold the start of a delete tag.
\<close>

fun tag_read :: "tag \<Rightarrow> string \<Rightarrow> bool" where
  "tag_read (FileTag kw gap attr q1 path q2 gap2 body close) post =
     (same_ci kw ''<file'' \<and> gap \<noteq> [] \<and> list_all is_space gap \<and> same_ci attr ''path=''
      \<and> is_quote q1 \<and> list_all dot path
      \<and> shortest_path open_tag_ends path (q2 # gap2 @ ''>'' @ body @ close @ post)
      \<and> is_quote q2 \<and> list_all is_space gap2
      \<and> clear ''</file>'' body (close @ post) \<and> same_ci close ''</file>'')"
| "tag_read (DeleteTag kw gap attr q1 path q2 gap2) post =
     (same_ci kw ''<delete'' \<and> gap \<noteq> [] \<and> list_all is_space gap \<and> same_ci attr ''path=''
      \<and> is_quote q1 \<and> list_all dot path
      \<and> shortest_path delete_tag_ends path (q2 # gap2 @ ''/>'' @ post)
      \<and> is_quote q2 \<and> list_all is_space gap2)"

subsection \<open>Sample inputs\<close>

text \<open>
  The reply of the specification's scenario, a write tag followed by a delete tag, and a
  working directory \<open>/w\<close> in which \<open>a.txt\<close> and \<open>b.txt\<close> exist.
\<close>

definition sample_reply :: string where
  "sample_reply =
     ''<file path='' @ [dq] @ ''a.txt'' @ [dq] @ ''>hello</file><delete path='' @ [dq]
     @ ''b.txt'' @ [dq] @ ''/>''"

definition sample_world :: world where
  "sample_world =
     \<lparr>files = [''/w/a.txt'' \<mapsto> ''old'', ''/w/b.txt'' \<mapsto> ''bye''], dirs = {''/w''}, console = []\<rparr>"

definition in_w :: "string \<Rightarrow> string" where
  "in_w p = ''/w/'' @ p"

definition dir_w :: "string \<Rightarrow> string" where
  "dir_w p = ''/w''"

text \<open>
  A reply inside a fence, with the delete tag before the write tag, written with upper-case
  letters and single quotes.
\<close>

definition fenced_reply :: string where
  "fenced_reply =
     [bt, bt, bt] @ ''xml'' @ [CHR 0x0A] @ ''Remove <delete path='' @ [dq] @ ''b.txt'' @ [dq] @ '' /> and write''
     @ [CHR 0x0A] @ ''<FILE  path='' @ [sq] @ ''a.txt'' @ [sq] @ ''>'' @ [CHR 0x0A] @ ''hello''
     @ [CHR 0x0A] @ ''</File>'' @ [CHR 0x0A] @ [bt, bt, bt]"

definition fenced_segs :: "(string \<times> tag) list" where
  "fenced_segs =
     [([CHR 0x0A] @ ''Remove '', DeleteTag ''<delete'' '' '' ''path='' dq ''b.txt'' dq '' ''),
      ('' and write'' @ [CHR 0x0A],
       FileTag ''<FILE'' ''  '' ''path='' sq ''a.txt'' sq [] ([CHR 0x0A] @ ''hello'' @ [CHR 0x0A])
         ''</File>'')]"

text \<open>
  Two replies in which a fence marker stands inside a keyword.  The first holds no tag, the
  second holds one write tag, whose body holds no delete tag.
\<close>

definition split_file_reply :: string where
  "split_file_reply =
     ''<fi'' @ [bt, bt, bt] @ ''le path='' @ [dq] @ ''a'' @ [dq] @ ''>x</file>''"

definition split_delete_reply :: string where
  "split_delete_reply =
     ''<file path='' @ [dq] @ ''a'' @ [dq] @ ''>x<del'' @ [bt, bt, bt] @ ''ete path='' @ [dq]
     @ ''y'' @ [dq] @ ''/></file>''"

definition split_delete_segs :: "(string \<times> tag) list" where
  "split_delete_segs =
     [([], FileTag ''<file'' '' '' ''path='' dq ''a'' dq []
             (''x<del'' @ [bt, bt, bt] @ ''ete path='' @ [dq] @ ''y'' @ [dq] @ ''/>'') ''</file>'')]"

text \<open>
  The working directory with backups switched on in \<open>.aidxrc.json\<close>, and an environment
  that rejects the backup copy of \<open>a.txt\<close> during the first directive of the apply loop.
\<close>

definition sample_world_backups :: world where
  "sample_world_backups =
     \<lparr>files = [''/w/a.txt'' \<mapsto> ''old'', ''/w/b.txt'' \<mapsto> ''bye'', ''/w/.aidxrc.json'' \<mapsto> ''on''],
      dirs = {''/w''}, console = []\<rparr>"

definition copy_rejected :: "stage \<Rightarrow> faults" where
  "copy_rejected st op =
     (if st = Apply 0 \<and> op = CopyFile ''/w/a.txt'' ''/w/a.txt.bak'' then Some EACCES else None)"

text \<open>
  Two contents whose line diff has 51 removed parts: the old one has the lines \<open>r\<close> and
  \<open>k\<close> in turn, 51 times, the new one has the 51 lines \<open>k\<close>.  \<open>sample_parts\<close> is what
  \<open>Diff.diffLines\<close> returns for them: each \<open>r\<close> line removed, each \<open>k\<close> line kept.
\<close>

definition sample_old :: string where
  "sample_old = concat (replicate 50 (''r'' @ [CHR 0x0A] @ ''k'' @ [CHR 0x0A])) @ ''r'' @ [CHR 0x0A] @ ''k''"

definition sample_new :: string where
  "sample_new = concat (replicate 50 (''k'' @ [CHR 0x0A])) @ ''k''"

definition sample_parts :: "change list" where
  "sample_parts =
     concat (replicate 50
       [\<lparr>cvalue = ''r'' @ [CHR 0x0A], added = False, removed = True\<rparr>,
        \<lparr>cvalue = ''k'' @ [CHR 0x0A], added = False, removed = False\<rparr>])
     @ [\<lparr>cvalue = ''r'' @ [CHR 0x0A], added = False, removed = True\<rparr>,
        \<lparr>cvalue = ''k'', added = False, removed = False\<rparr>]"

definition sample_diff :: "string \<Rightarrow> string \<Rightarrow> change list" where
  "sample_diff old new = (if old = sample_old \<and> new = sample_new then sample_parts else [])"

section \<open>The apply loop\<close>

lemma bak_neq [simp]: "bak p \<noteq> p" "p \<noteq> bak p"
  by (auto simp: bak_def)

text \<open>
  C3. With backups enabled, applying a write directive whose target exists with content
  \<open>old\<close> leaves \<open>old\<close> in the sibling \<open>target.bak\<close>, whatever that path held before, and
  the directive's content \<open>new\<close> in the target, when the environment rejects none of the
  three calls the directive makes.
\<close>

theorem write_with_backup_keeps_old_content:
  assumes "utype u = TWrite" and "ucontent u = Some new"
    and "files w (resolve (upath u)) = Some old"
    and "flt (Mkdir (dirname (resolve (upath u)))) = None"
    and "flt (CopyFile (resolve (upath u)) (bak (resolve (upath u)))) = None"
    and "flt (WriteFile (resolve (upath u))) = None"
  shows "files (apply_update flt True resolve dirname u w) (bak (resolve (upath u))) = Some old
       \<and> files (apply_update flt True resolve dirname u w) (resolve (upath u)) = Some new"
  using assms
  by (simp add: apply_update_def Let_def mkdir_def copyFile_def writeFile_def say_def
      content_or_empty_def)

theorem write_with_backup_keeps_old_content_witness:
  "files (apply_update (\<lambda>_. None) True in_w dir_w
            \<lparr>utype = TWrite, upath = ''a.txt'', ucontent = Some ''new''\<rparr>
            \<lparr>files = [''/w/a.txt'' \<mapsto> ''old'', ''/w/a.txt.bak'' \<mapsto> ''older''],
             dirs = {''/w''}, console = []\<rparr>)
         (bak ''/w/a.txt'') = Some ''old''
   \<and> files (apply_update (\<lambda>_. None) True in_w dir_w
            \<lparr>utype = TWrite, upath = ''a.txt'', ucontent = Some ''new''\<rparr>
            \<lparr>files = [''/w/a.txt'' \<mapsto> ''old'', ''/w/a.txt.bak'' \<mapsto> ''older''],
             dirs = {''/w''}, console = []\<rparr>)
         ''/w/a.txt'' = Some ''new''"
  using write_with_backup_keeps_old_content
    [of "\<lparr>utype = TWrite, upath = ''a.txt'', ucontent = Some ''new''\<rparr>" "''new''"
        "\<lparr>files = [''/w/a.txt'' \<mapsto> ''old'', ''/w/a.txt.bak'' \<mapsto> ''older''],
          dirs = {''/w''}, console = []\<rparr>"
        in_w "''old''" "\<lambda>_. None" dir_w]
  by (simp add: in_w_def)



text \<open>
  C5. A delete directive whose target does not exist: \<open>runApply\<close> (1.0.6, and the same loop
  of 1.0.1) leaves the world as it was, console included.  The rejected \<open>copyFile\<close> and
  \<open>unlink\<close> end in empty \<open>catch\<close> blocks, so the file system is unchanged, and no outcome
  is printed for the directive.
\<close>

theorem delete_of_missing_target_is_silent:
  "apply_update (\<lambda>_. None) True (\<lambda>p. ''/w/'' @ p) (\<lambda>_. ''/w'')
     \<lparr>utype = TDelete, upath = ''gone.txt'', ucontent = None\<rparr>
     \<lparr>files = Map.empty, dirs = {''/w''}, console = []\<rparr>
   = \<lparr>files = Map.empty, dirs = {''/w''}, console = []\<rparr>"
  by (simp add: apply_update_def Let_def copyFile_def unlink_def)

text \<open>
  The apply loop of version 1.0.0 prints the skipped outcome for a delete directive at whose
  path neither a file nor a directory stands, and leaves the file system as it is, when
  \<open>fs.access\<close> is rejected for no other reason than the missing file.
\<close>

theorem delete_of_missing_target_skipped_v100:
  assumes "utype u = TDelete"
    and "files w (resolve (upath u)) = None"
    and "resolve (upath u) \<notin> dirs w"
    and "flt (Access (resolve (upath u))) = None"
  shows "apply_update_v100 flt b resolve dirname basename u w = say (SkippedDelete (upath u)) w"
  using assms
  by (simp add: apply_update_v100_def Let_def backup_v100_def access_def delete_failed_v100_def)

theorem delete_of_missing_target_v100:
  "files \<lparr>files = Map.empty, dirs = {''/w''}, console = []\<rparr> (in_w ''gone.txt'') = None
   \<and> in_w ''gone.txt'' \<notin> dirs \<lparr>files = Map.empty, dirs = {''/w''}, console = []\<rparr>
   \<and> apply_update_v100 (\<lambda>_. None) True in_w dir_w (\<lambda>_. ''gone.txt'')
     \<lparr>utype = TDelete, upath = ''gone.txt'', ucontent = None\<rparr>
     \<lparr>files = Map.empty, dirs = {''/w''}, console = []\<rparr>
   = \<lparr>files = Map.empty, dirs = {''/w''}, console = [SkippedDelete ''gone.txt'']\<rparr>"
  using delete_of_missing_target_skipped_v100
    [of "\<lparr>utype = TDelete, upath = ''gone.txt'', ucontent = None\<rparr>"
        "\<lparr>files = Map.empty, dirs = {''/w''}, console = []\<rparr>" in_w "\<lambda>_. None" True dir_w
        "\<lambda>_. ''gone.txt''"]
  by (simp add: say_def in_w_def)

section \<open>The preview\<close>

text \<open>
  C10. A write directive whose target exists and reads as the empty string: the preview
  prints the path banner and the separator that every directive gets and nothing between
  them, neither the new-file mark nor a hunk nor the truncation mark, for every diff
  function and every content of the directive.
\<close>

theorem preview_of_existing_empty_file:
  assumes "utype u = TWrite"
    and "files w (resolve (upath u)) = Some []"
    and "flt (ReadFile (resolve (upath u))) = None"
  shows "preview_update flt resolve diffLines u w
         = w\<lparr>console := console w @ [PathBanner (upath u), Separator]\<rparr>"
  using assms
  by (simp add: preview_update_def Let_def readFile_def say_def split: option.splits)

theorem preview_of_existing_empty_file_witness:
  "files \<lparr>files = [''/w/a.txt'' \<mapsto> []], dirs = {''/w''}, console = []\<rparr> (in_w ''a.txt'') = Some []
   \<and> preview_update (\<lambda>_. None) in_w sample_diff
        \<lparr>utype = TWrite, upath = ''a.txt'', ucontent = Some ''hello''\<rparr>
        \<lparr>files = [''/w/a.txt'' \<mapsto> []], dirs = {''/w''}, console = []\<rparr>
      = \<lparr>files = [''/w/a.txt'' \<mapsto> []], dirs = {''/w''},
         console = [PathBanner ''a.txt'', Separator]\<rparr>"
  using preview_of_existing_empty_file
    [of "\<lparr>utype = TWrite, upath = ''a.txt'', ucontent = Some ''hello''\<rparr>"
        "\<lparr>files = [''/w/a.txt'' \<mapsto> []], dirs = {''/w''}, console = []\<rparr>"
        in_w "\<lambda>_. None" sample_diff]
  by (simp add: in_w_def)

lemma sample_old_nonempty: "sample_old \<noteq> []"
  by (simp add: sample_old_def)

text \<open>
  C7. The preview of the sample contents, whose diff has 51 removed parts, writes all 51 of
  them and then the truncation mark: the callback tests \<open>count > 50\<close> before it writes and
  counts after, so it still writes when 50 parts have been written.
\<close>

theorem preview_renders_fifty_one_hunks:
  "length (filter is_hunk (console (preview_update (\<lambda>_. None) in_w sample_diff
      \<lparr>utype = TWrite, upath = ''a.txt'', ucontent = Some sample_new\<rparr>
      \<lparr>files = [''/w/a.txt'' \<mapsto> sample_old], dirs = {''/w''}, console = []\<rparr>))) = 51
   \<and> filter (\<lambda>x. x = Truncated) (console (preview_update (\<lambda>_. None) in_w sample_diff
      \<lparr>utype = TWrite, upath = ''a.txt'', ucontent = Some sample_new\<rparr>
      \<lparr>files = [''/w/a.txt'' \<mapsto> sample_old], dirs = {''/w''}, console = []\<rparr>))
     = [Truncated]"
  by (simp add: preview_update_def Let_def readFile_def say_def in_w_def sample_diff_def
      sample_old_nonempty sample_parts_def eval_nat_numeral)

text \<open>
  For every diff the preview of one directive writes at most 51 hunks: the counter is
  tested against 50 before a part is written and grows by one with each part written.
\<close>

lemma render_changes_hunks:
  "render_changes parts (n, w) = (n', w') \<Longrightarrow>
   n \<le> n' \<and> n' \<le> max n 51
   \<and> length (filter is_hunk (console w')) = length (filter is_hunk (console w)) + (n' - n)"
proof (induction parts arbitrary: n w)
  case Nil
  then show ?case by simp
next
  case (Cons part parts)
  show ?case
  proof (cases "n > 50")
    case True
    with Cons.prems have "render_changes parts (n, w) = (n', w')" by simp
    from Cons.IH[OF this] show ?thesis .
  next
    case False
    show ?thesis
    proof (cases "added part \<or> removed part")
      case True
      let ?w = "if added part then say (AddedHunk (cvalue part)) w
                else say (RemovedHunk (cvalue part)) w"
      from True False Cons.prems have "render_changes parts (Suc n, ?w) = (n', w')"
        by (auto split: if_splits)
      from Cons.IH[OF this] False show ?thesis
        by (auto simp: say_def max_def split: if_splits)
    next
      case no: False
      with False Cons.prems have "render_changes parts (n, w) = (n', w')" by simp
      from Cons.IH[OF this] show ?thesis .
    qed
  qed
qed

theorem preview_renders_at_most_fifty_one_hunks:
  "length (filter is_hunk (console (preview_update flt resolve diffLines u w)))
   \<le> length (filter is_hunk (console w)) + 51"
proof (cases "utype u = TDelete")
  case True
  then show ?thesis by (simp add: preview_update_def Let_def say_def)
next
  case False
  let ?w1 = "say (PathBanner (upath u)) w"
  obtain oc wr where r: "(case readFile flt (resolve (upath u)) ?w1 of
                            Inl e \<Rightarrow> ([], say NewFileMark ?w1)
                          | Inr c \<Rightarrow> (c, ?w1)) = (oc, wr)"
    by (cases "case readFile flt (resolve (upath u)) ?w1 of
                  Inl e \<Rightarrow> ([], say NewFileMark ?w1) | Inr c \<Rightarrow> (c, ?w1)") auto
  have wr: "filter is_hunk (console wr) = filter is_hunk (console w)"
    using r by (cases "readFile flt (resolve (upath u)) ?w1") (auto simp: say_def)
  have eq: "preview_update flt resolve diffLines u w
        = say Separator
            (case ucontent u of
               None \<Rightarrow> wr
             | Some content \<Rightarrow>
                 if oc \<noteq> [] then
                   (case render_changes (diffLines oc content) (0, wr) of
                      (count, wd) \<Rightarrow> say Blank (if count > 50 then say Truncated wd else wd))
                 else wr)"
    using False r by (simp add: preview_update_def Let_def split: option.splits)
  show ?thesis
  proof (cases "ucontent u")
    case None
    with eq wr show ?thesis by (simp add: say_def)
  next
    case (Some content)
    obtain n wd where d: "render_changes (diffLines oc content) (0, wr) = (n, wd)"
      by (cases "render_changes (diffLines oc content) (0, wr)") auto
    from render_changes_hunks[OF d] wr eq Some d show ?thesis
      by (simp add: say_def)
  qed
qed

section \<open>The command as a whole\<close>

text \<open>What the preview leaves alone: the files, the directories and the report lines.\<close>

lemma render_changes_frame:
  "files (snd (render_changes parts (n, w))) = files w
   \<and> dirs (snd (render_changes parts (n, w))) = dirs w
   \<and> filter is_report (console (snd (render_changes parts (n, w)))) = filter is_report (console w)"
  by (induction parts arbitrary: n w) (simp_all add: say_def)

lemma render_changes_result:
  assumes "render_changes parts (n, w) = (n', w')"
  shows "files w' = files w \<and> dirs w' = dirs w
       \<and> filter is_report (console w') = filter is_report (console w)"
  using render_changes_frame[of parts n w] assms by simp

lemma preview_update_frame:
  "files (preview_update flt resolve diffLines u w) = files w
   \<and> dirs (preview_update flt resolve diffLines u w) = dirs w
   \<and> filter is_report (console (preview_update flt resolve diffLines u w))
       = filter is_report (console w)"
proof (cases "utype u = TDelete")
  case True
  then show ?thesis by (simp add: preview_update_def Let_def say_def)
next
  case False
  let ?w1 = "say (PathBanner (upath u)) w"
  obtain oc wr where r: "(case readFile flt (resolve (upath u)) ?w1 of
                            Inl e \<Rightarrow> ([], say NewFileMark ?w1)
                          | Inr c \<Rightarrow> (c, ?w1)) = (oc, wr)"
    by (cases "case readFile flt (resolve (upath u)) ?w1 of
                  Inl e \<Rightarrow> ([], say NewFileMark ?w1) | Inr c \<Rightarrow> (c, ?w1)") auto
  have wr: "files wr = files w \<and> dirs wr = dirs w
      \<and> filter is_report (console wr) = filter is_report (console w)"
    using r by (cases "readFile flt (resolve (upath u)) ?w1") (auto simp: say_def)
  have eq: "preview_update flt resolve diffLines u w
        = say Separator
            (case ucontent u of
               None \<Rightarrow> wr
             | Some content \<Rightarrow>
                 if oc \<noteq> [] then
                   (case render_changes (diffLines oc content) (0, wr) of
                      (count, wd) \<Rightarrow> say Blank (if count > 50 then say Truncated wd else wd))
                 else wr)"
    using False r by (simp add: preview_update_def Let_def split: option.splits)
  show ?thesis
  proof (cases "ucontent u")
    case None
    with eq wr show ?thesis by (simp add: say_def)
  next
    case (Some content)
    obtain n wd where d: "render_changes (diffLines oc content) (0, wr) = (n, wd)"
      by (cases "render_changes (diffLines oc content) (0, wr)") auto
    from render_changes_result[OF d] wr eq Some d show ?thesis
      by (simp add: say_def)
  qed
qed

lemma preview_loop_frame:
  "files (preview_loop env resolve diffLines i us w) = files w
   \<and> dirs (preview_loop env resolve diffLines i us w) = dirs w
   \<and> filter is_report (console (preview_loop env resolve diffLines i us w))
       = filter is_report (console w)"
  by (induction us arbitrary: i w) (simp_all add: preview_update_frame)

text \<open>
  C1. The preview loop changes neither the files nor the directories (and the extraction
  before it is a function of the clipboard text alone), and a run in which the operator
  declines, or in which \<open>confirm\<close> rejects, ends with the files and the directories it
  started with, whatever the clipboard holds and whatever the environment rejects.
\<close>

theorem declined_run_leaves_file_system:
  assumes "proceed \<noteq> Resolved True"
  shows "files (preview_loop env resolve diffLines i us w) = files w
       \<and> dirs (preview_loop env resolve diffLines i us w) = dirs w
       \<and> files (runApply env resolve dirname diffLines parse_backup clipboard proceed w) = files w
       \<and> dirs (runApply env resolve dirname diffLines parse_backup clipboard proceed w) = dirs w"
proof -
  have "files (runApply env resolve dirname diffLines parse_backup clipboard proceed w) = files w
      \<and> dirs (runApply env resolve dirname diffLines parse_backup clipboard proceed w) = dirs w"
  proof (cases proceed)
    case (Resolved yes)
    with assms have "\<not> yes" by simp
    with Resolved show ?thesis
      by (simp add: runApply_def Let_def say_def preview_loop_frame split: option.splits)
  next
    case Rejected
    then show ?thesis
      by (simp add: runApply_def Let_def say_def preview_loop_frame split: option.splits)
  qed
  then show ?thesis by (simp add: preview_loop_frame)
qed

theorem declined_run_leaves_file_system_witness:
  "Resolved False \<noteq> Resolved True
   \<and> files (preview_loop (\<lambda>_ _. None) in_w sample_diff 0 (extract_updates sample_reply)
        sample_world) = files sample_world
   \<and> dirs (preview_loop (\<lambda>_ _. None) in_w sample_diff 0 (extract_updates sample_reply)
        sample_world) = dirs sample_world
   \<and> files (runApply (\<lambda>_ _. None) in_w dir_w sample_diff (\<lambda>_. Some True) (Some sample_reply)
        (Resolved False) sample_world) = files sample_world
   \<and> dirs (runApply (\<lambda>_ _. None) in_w dir_w sample_diff (\<lambda>_. Some True) (Some sample_reply)
        (Resolved False) sample_world) = dirs sample_world"
  using declined_run_leaves_file_system
    [of "Resolved False" "\<lambda>_ _. None" in_w sample_diff 0 "extract_updates sample_reply"
        sample_world dir_w "\<lambda>_. Some True" "Some sample_reply"]
  by simp

text \<open>What the calls of the apply loop do to the console.\<close>

lemma copyFile_console: "copyFile flt a b w = Inr w' \<Longrightarrow> console w' = console w"
  by (auto simp: copyFile_def split: option.splits)

lemma unlink_console: "unlink flt p w = Inr w' \<Longrightarrow> console w' = console w"
  by (auto simp: unlink_def split: option.splits)

lemma mkdir_console: "mkdir flt d w = Inr w' \<Longrightarrow> console w' = console w"
  by (auto simp: mkdir_def split: option.splits)

lemma writeFile_console: "writeFile flt p c w = Inr w' \<Longrightarrow> console w' = console w"
  by (auto simp: writeFile_def split: option.splits)

lemma mkdir_Inl: "mkdir flt d w = Inl e \<longleftrightarrow> flt (Mkdir d) = Some e"
  by (auto simp: mkdir_def split: option.splits)

lemma writeFile_Inl: "writeFile flt p c w = Inl e \<longleftrightarrow> flt (WriteFile p) = Some e"
  by (auto simp: writeFile_def split: option.splits)

lemma apply_update_reports:
  "filter is_report (console (apply_update (env (Apply i)) b resolve dirname u w))
   = filter is_report (console w) @ reports_expected env resolve dirname i [u]"
proof (cases "utype u = TDelete")
  case True
  let ?flt = "env (Apply i)" and ?t = "resolve (upath u)"
  let ?w1 = "if b then (case copyFile ?flt ?t (bak ?t) w of Inl e \<Rightarrow> w | Inr w' \<Rightarrow> w')
             else w"
  have c1: "console ?w1 = console w"
    by (cases "copyFile ?flt ?t (bak ?t) w") (auto dest: copyFile_console)
  have "apply_update ?flt b resolve dirname u w
        = (case unlink ?flt ?t ?w1 of Inl e \<Rightarrow> ?w1 | Inr w2 \<Rightarrow> say (Deleted (upath u)) w2)"
    using True by (simp add: apply_update_def Let_def)
  then have "filter is_report (console (apply_update ?flt b resolve dirname u w))
        = filter is_report (console w)"
    using c1 by (cases "unlink ?flt ?t ?w1") (auto simp: say_def dest: unlink_console)
  with True show ?thesis by simp
next
  case False
  let ?flt = "env (Apply i)" and ?t = "resolve (upath u)"
  show ?thesis
  proof (cases "mkdir ?flt (dirname ?t) w")
    case (Inl e)
    then have "?flt (Mkdir (dirname ?t)) = Some e" by (simp add: mkdir_Inl)
    moreover from Inl False have "apply_update ?flt b resolve dirname u w = say (ErrorLine (upath u) e) w"
      by (simp add: apply_update_def Let_def)
    ultimately show ?thesis using False by (simp add: say_def)
  next
    case (Inr w1)
    then have m: "?flt (Mkdir (dirname ?t)) = None"
      by (cases "?flt (Mkdir (dirname ?t))") (simp_all add: mkdir_def)
    let ?w2 = "if b then (case copyFile ?flt ?t (bak ?t) w1 of Inl e \<Rightarrow> w1
                          | Inr w' \<Rightarrow> say BackupSaved w') else w1"
    have c2: "filter is_report (console ?w2) = filter is_report (console w)"
      using mkdir_console[OF Inr]
      by (cases "copyFile ?flt ?t (bak ?t) w1") (auto simp: say_def dest: copyFile_console)
    have step: "apply_update ?flt b resolve dirname u w
          = (case writeFile ?flt ?t (content_or_empty (ucontent u)) ?w2 of
               Inl e \<Rightarrow> say (ErrorLine (upath u) e) ?w2
             | Inr w3 \<Rightarrow> say (Wrote (upath u)) w3)"
      using False Inr by (simp add: apply_update_def Let_def)
    show ?thesis
    proof (cases "writeFile ?flt ?t (content_or_empty (ucontent u)) ?w2")
      case (Inl e)
      then have "?flt (WriteFile ?t) = Some e" by (simp add: writeFile_Inl)
      with Inl step c2 m False show ?thesis by (simp add: say_def)
    next
      case (Inr w3)
      then have "?flt (WriteFile ?t) = None"
        by (cases "?flt (WriteFile ?t)") (simp_all add: writeFile_def)
      with Inr step c2 m False writeFile_console[OF Inr] show ?thesis
        by (simp add: say_def)
    qed
  qed
qed

lemma apply_loop_reports:
  "filter is_report (console (apply_loop env b resolve dirname i us w))
   = filter is_report (console w) @ reports_expected env resolve dirname i us"
proof (induction us arbitrary: i w)
  case Nil
  then show ?case by simp
next
  case (Cons u us)
  have "filter is_report (console (apply_loop env b resolve dirname i (u # us) w))
        = filter is_report (console (apply_update (env (Apply i)) b resolve dirname u w))
          @ reports_expected env resolve dirname (Suc i) us"
    by (simp add: Cons.IH)
  also have "\<dots> = filter is_report (console w) @ reports_expected env resolve dirname i [u]
          @ reports_expected env resolve dirname (Suc i) us"
    by (simp only: apply_update_reports append_assoc)
  finally show ?case by simp
qed

text \<open>The apply loop has on every directive the effect described by \<open>directive_expected\<close>.\<close>

lemma apply_update_delete_expected:
  assumes "utype u = TDelete"
  shows "apply_update flt b resolve dirname u w = directive_expected flt b resolve dirname u w"
proof -
  let ?t = "resolve (upath u)"
  show ?thesis
  proof (cases "files w ?t")
    case None
    then show ?thesis using assms
      by (simp add: apply_update_def directive_expected_def Let_def copyFile_def unlink_def
          backed_up_def files_backed_up_def split: option.splits)
  next
    case (Some c)
    then show ?thesis using assms
      by (cases b; cases "flt (CopyFile ?t (bak ?t))"; cases "flt (Unlink ?t)")
         (simp_all add: apply_update_def directive_expected_def Let_def copyFile_def unlink_def
          backed_up_def files_backed_up_def say_def)
  qed
qed

lemma apply_update_write_expected:
  assumes "utype u \<noteq> TDelete"
  shows "apply_update flt b resolve dirname u w = directive_expected flt b resolve dirname u w"
proof -
  let ?t = "resolve (upath u)"
  show ?thesis
  proof (cases "flt (Mkdir (dirname ?t))")
    case (Some e)
    then show ?thesis using assms
      by (simp add: apply_update_def directive_expected_def Let_def mkdir_def say_def)
  next
    case None
    then show ?thesis using assms
      by (cases b; cases "files w ?t"; cases "flt (CopyFile ?t (bak ?t))";
          cases "flt (WriteFile ?t)"; cases "ucontent u")
         (simp_all add: apply_update_def directive_expected_def Let_def mkdir_def copyFile_def
          writeFile_def backed_up_def files_backed_up_def say_def content_or_empty_def)
  qed
qed

lemma apply_update_expected:
  "apply_update flt b resolve dirname u w = directive_expected flt b resolve dirname u w"
  by (cases "utype u = TDelete") (simp_all add: apply_update_delete_expected apply_update_write_expected)

lemma apply_loop_expected:
  "apply_loop env b resolve dirname i us w = loop_expected env b resolve dirname i us w"
  by (induction us arbitrary: i w) (simp_all add: apply_update_expected)

lemma directive_expected_frame:
  assumes "files w = files w'" and "dirs w = dirs w'"
  shows "files (directive_expected flt b resolve dirname u w)
           = files (directive_expected flt b resolve dirname u w')
       \<and> dirs (directive_expected flt b resolve dirname u w)
           = dirs (directive_expected flt b resolve dirname u w')"
proof -
  let ?t = "resolve (upath u)"
  have b: "backed_up flt b ?t w = backed_up flt b ?t w'"
    by (simp add: backed_up_def assms)
  have k: "files_backed_up flt b ?t w = files_backed_up flt b ?t w'"
    by (simp add: files_backed_up_def b assms)
  show ?thesis
    by (cases "flt (Mkdir (dirname ?t))"; cases "flt (WriteFile ?t)")
       (simp_all add: directive_expected_def Let_def k assms)
qed

lemma loop_expected_frame:
  assumes "files w = files w'" and "dirs w = dirs w'"
  shows "files (loop_expected env b resolve dirname i us w)
           = files (loop_expected env b resolve dirname i us w')
       \<and> dirs (loop_expected env b resolve dirname i us w)
           = dirs (loop_expected env b resolve dirname i us w')"
  using assms
proof (induction us arbitrary: i w w')
  case Nil
  then show ?case by simp
next
  case (Cons u us)
  from directive_expected_frame[OF Cons.prems]
  have "files (directive_expected (env (Apply i)) b resolve dirname u w)
          = files (directive_expected (env (Apply i)) b resolve dirname u w')"
    and "dirs (directive_expected (env (Apply i)) b resolve dirname u w)
          = dirs (directive_expected (env (Apply i)) b resolve dirname u w')"
    by simp_all
  from Cons.IH[OF this] show ?case by simp
qed

lemma extract_sample_reply:
  "extract_updates sample_reply
   = [\<lparr>utype = TWrite, upath = ''a.txt'', ucontent = Some ''hello''\<rparr>,
      \<lparr>utype = TDelete, upath = ''b.txt'', ucontent = None\<rparr>]"
  by code_simp

text \<open>
  C4, as the program has it.  A confirmed run over a non-empty directive list prints the
  preview, then visits every directive of the list in turn, and ends with the summary line,
  whatever the environment rejects: its final world is the one in which each directive has
  had the effect \<open>directive_expected\<close> describes, so its files and directories are those
  the directives leave when they start from the files and directories of the initial world.
  Every write directive has one report line, in the order of the list: the error line with
  the directive's path and the cause when \<open>mkdir\<close> or \<open>writeFile\<close> is rejected, the
  success line otherwise.  A rejected backup copy is caught without a line of its own and the
  write goes on.  A rejected \<open>unlink\<close> is caught without a line as well, and the loop
  goes on.
\<close>

theorem confirmed_run_applies_every_directive:
  assumes "extract_updates content \<noteq> []"
  shows "runApply env resolve dirname diffLines parse_backup (Some content) (Resolved True) w
         = say Done
             (loop_expected env (getBackupStatus (env Config) resolve parse_backup w) resolve
                dirname 0 (extract_updates content)
                (say Blank
                   (preview_loop env resolve diffLines 0 (extract_updates content)
                      (say (Found (length (extract_updates content)))
                         (say ReadingClipboard w)))))
       \<and> files (runApply env resolve dirname diffLines parse_backup (Some content)
                 (Resolved True) w)
         = files (loop_expected env (getBackupStatus (env Config) resolve parse_backup w)
                    resolve dirname 0 (extract_updates content) w)
       \<and> dirs (runApply env resolve dirname diffLines parse_backup (Some content)
                (Resolved True) w)
         = dirs (loop_expected env (getBackupStatus (env Config) resolve parse_backup w)
                   resolve dirname 0 (extract_updates content) w)
       \<and> last (console (runApply env resolve dirname diffLines parse_backup (Some content)
                 (Resolved True) w)) = Done
       \<and> filter is_report (console (runApply env resolve dirname diffLines parse_backup
                 (Some content) (Resolved True) w))
         = filter is_report (console w)
           @ reports_expected env resolve dirname 0 (extract_updates content)"
proof -
  let ?us = "extract_updates content"
  let ?b = "getBackupStatus (env Config) resolve parse_backup w"
  let ?w4 = "say Blank (preview_loop env resolve diffLines 0 ?us
               (say (Found (length ?us)) (say ReadingClipboard w)))"
  let ?run = "runApply env resolve dirname diffLines parse_backup (Some content) (Resolved True) w"
  have run: "?run = say Done (apply_loop env ?b resolve dirname 0 ?us ?w4)"
    using assms by (simp add: runApply_def Let_def)
  have 1: "?run = say Done (loop_expected env ?b resolve dirname 0 ?us ?w4)"
    by (simp only: run apply_loop_expected)
  have fd: "files ?w4 = files w" "dirs ?w4 = dirs w"
    by (simp_all add: say_def preview_loop_frame)
  from loop_expected_frame[OF fd]
  have 2: "files ?run = files (loop_expected env ?b resolve dirname 0 ?us w)"
    and 3: "dirs ?run = dirs (loop_expected env ?b resolve dirname 0 ?us w)"
    unfolding 1 by (simp_all add: say_def)
  have 4: "last (console ?run) = Done"
    unfolding run by (simp add: say_def)
  have 5: "filter is_report (console ?run)
           = filter is_report (console w) @ reports_expected env resolve dirname 0 ?us"
    unfolding run by (simp add: say_def apply_loop_reports preview_loop_frame)
  from 1 2 3 4 5 show ?thesis by (intro conjI)
qed

theorem confirmed_run_applies_every_directive_witness:
  "extract_updates sample_reply \<noteq> []
   \<and> getBackupStatus (copy_rejected Config) in_w (\<lambda>_. Some True) sample_world_backups
   \<and> files (runApply copy_rejected in_w dir_w sample_diff (\<lambda>_. Some True) (Some sample_reply)
        (Resolved True) sample_world_backups)
     = [''/w/a.txt'' \<mapsto> ''hello'', ''/w/b.txt.bak'' \<mapsto> ''bye'', ''/w/.aidxrc.json'' \<mapsto> ''on'']
   \<and> dirs (runApply copy_rejected in_w dir_w sample_diff (\<lambda>_. Some True) (Some sample_reply)
        (Resolved True) sample_world_backups) = {''/w''}
   \<and> last (console (runApply copy_rejected in_w dir_w sample_diff (\<lambda>_. Some True)
        (Some sample_reply) (Resolved True) sample_world_backups)) = Done
   \<and> filter is_report (console (runApply copy_rejected in_w dir_w sample_diff (\<lambda>_. Some True)
        (Some sample_reply) (Resolved True) sample_world_backups)) = [Wrote ''a.txt'']"
proof -
  have ne: "extract_updates sample_reply \<noteq> []"
    by (simp add: extract_sample_reply)
  have b: "getBackupStatus (copy_rejected Config) in_w (\<lambda>_. Some True) sample_world_backups"
    by (simp add: getBackupStatus_def readFile_def copy_rejected_def in_w_def CONFIG_FILE_def
        sample_world_backups_def)
  have f: "files (loop_expected copy_rejected True in_w dir_w 0 (extract_updates sample_reply)
             sample_world_backups)
           = [''/w/a.txt'' \<mapsto> ''hello'', ''/w/b.txt.bak'' \<mapsto> ''bye'', ''/w/.aidxrc.json'' \<mapsto> ''on'']"
    by (simp add: extract_sample_reply directive_expected_def Let_def backed_up_def
        files_backed_up_def copy_rejected_def in_w_def dir_w_def bak_def sample_world_backups_def
        fun_eq_iff)
  have d: "dirs (loop_expected copy_rejected True in_w dir_w 0 (extract_updates sample_reply)
             sample_world_backups) = {''/w''}"
    by (simp add: extract_sample_reply directive_expected_def Let_def backed_up_def
        files_backed_up_def copy_rejected_def in_w_def dir_w_def bak_def sample_world_backups_def)
  note run = confirmed_run_applies_every_directive
      [OF ne, of copy_rejected in_w dir_w sample_diff "\<lambda>_. Some True" sample_world_backups,
       unfolded eqTrueI[OF b]]
  have 2: "files (runApply copy_rejected in_w dir_w sample_diff (\<lambda>_. Some True)
        (Some sample_reply) (Resolved True) sample_world_backups)
     = [''/w/a.txt'' \<mapsto> ''hello'', ''/w/b.txt.bak'' \<mapsto> ''bye'', ''/w/.aidxrc.json'' \<mapsto> ''on'']"
    by (rule trans[OF conjunct1[OF conjunct2[OF run]] f])
  have 3: "dirs (runApply copy_rejected in_w dir_w sample_diff (\<lambda>_. Some True)
        (Some sample_reply) (Resolved True) sample_world_backups) = {''/w''}"
    by (rule trans[OF conjunct1[OF conjunct2[OF conjunct2[OF run]]] d])
  from run have 4: "last (console (runApply copy_rejected in_w dir_w sample_diff (\<lambda>_. Some True)
        (Some sample_reply) (Resolved True) sample_world_backups)) = Done"
    by (rule conjunct1[OF conjunct2[OF conjunct2[OF conjunct2]]])
  from run have "filter is_report (console (runApply copy_rejected in_w dir_w sample_diff
        (\<lambda>_. Some True) (Some sample_reply) (Resolved True) sample_world_backups))
      = filter is_report (console sample_world_backups)
        @ reports_expected copy_rejected in_w dir_w 0 (extract_updates sample_reply)"
    by (rule conjunct2[OF conjunct2[OF conjunct2[OF conjunct2]]])
  then have 5: "filter is_report (console (runApply copy_rejected in_w dir_w sample_diff
        (\<lambda>_. Some True) (Some sample_reply) (Resolved True) sample_world_backups))
      = [Wrote ''a.txt'']"
    by (simp add: extract_sample_reply copy_rejected_def in_w_def dir_w_def
        sample_world_backups_def)
  from ne b 2 3 4 5 show ?thesis by (intro conjI)
qed

text \<open>
  C4, as the claim has it, fails where the backup copy is rejected: the environment rejects
  \<open>copyFile\<close> with \<open>EACCES\<close>, and the console holds the success line only.
\<close>

theorem backup_failure_is_not_reported:
  "copyFile (\<lambda>op. if op = CopyFile ''/w/a.txt'' ''/w/a.txt.bak'' then Some EACCES else None)
      ''/w/a.txt'' (bak ''/w/a.txt'')
      \<lparr>files = [''/w/a.txt'' \<mapsto> ''old''], dirs = {''/w''}, console = []\<rparr> = Inl EACCES
   \<and> console (apply_update
        (\<lambda>op. if op = CopyFile ''/w/a.txt'' ''/w/a.txt.bak'' then Some EACCES else None)
        True (\<lambda>p. ''/w/'' @ p) (\<lambda>_. ''/w'')
        \<lparr>utype = TWrite, upath = ''a.txt'', ucontent = Some ''new''\<rparr>
        \<lparr>files = [''/w/a.txt'' \<mapsto> ''old''], dirs = {''/w''}, console = []\<rparr>)
     = [Wrote ''a.txt'']"
  by (simp add: apply_update_def Let_def mkdir_def copyFile_def writeFile_def say_def bak_def
      content_or_empty_def)

section \<open>Extraction\<close>

subsection \<open>When a matcher is bound to succeed or to fail\<close>

lemma lit_None: "\<not> starts_ci pat s \<Longrightarrow> lit pat k s = None"
  by (induction pat k s rule: lit.induct) auto

lemma lit_same: "same_ci m pat \<Longrightarrow> lit pat k (m @ s) = k s"
proof (induction pat arbitrary: m)
  case Nil
  then show ?case by (simp add: same_ci_def)
next
  case (Cons p ps)
  then obtain c m' where m: "m = c # m'" "canon c = canon p" "same_ci m' ps"
    by (cases m) (auto simp: same_ci_def)
  with Cons.IH[of m'] show ?case by simp
qed

lemma star_det:
  assumes fails: "\<And>c cs. P c \<Longrightarrow> k (c # cs) = None"
    and "list_all P m" and "s = [] \<or> \<not> P (hd s)"
  shows "star P k (m @ s) = k s"
  using assms(2)
proof (induction m)
  case Nil
  from assms(3) show ?case by (cases s) auto
next
  case (Cons a m)
  then have "P a" and ih: "star P k (m @ s) = k s" by auto
  then show ?case using fails[of a "m @ s"] by (cases "k s") auto
qed

lemma lazy_first:
  assumes "list_all P m"
    and "\<And>m1 c m2. m = m1 @ c # m2 \<Longrightarrow> k (acc @ m1) (c # m2 @ s) = None"
    and "k (acc @ m) s = Some r"
  shows "lazy_from P k acc (m @ s) = Some r"
  using assms
proof (induction m arbitrary: acc)
  case Nil
  then show ?case by (cases s) auto
next
  case (Cons a m)
  from Cons.prems(2)[of "[]" a m] have 1: "k acc (a # m @ s) = None" by simp
  have 2: "k ((acc @ [a]) @ m1) (c # m2 @ s) = None" if "m = m1 @ c # m2" for m1 c m2
    using Cons.prems(2)[of "a # m1" c m2] that by simp
  from Cons.prems have 3: "P a" "list_all P m" "k ((acc @ [a]) @ m) s = Some r" by auto
  from Cons.IH[OF 3(2) 2 3(3)] 1 3(1) show ?case by simp
qed

lemma exec_clear:
  assumes "\<And>s. \<not> starts_ci K s \<Longrightarrow> m s = None"
  shows "clear K x t \<Longrightarrow> exec m (x @ t) = exec m t"
  by (induction x) (auto simp: assms)

lemma exec_hit: "m s = Some r \<Longrightarrow> exec m s = Some r"
  by (cases s) auto

lemma clear_append: "clear K (x @ y) t = (clear K x (y @ t) \<and> clear K y t)"
  by (induction x) auto

lemma clear_split: "clear K (m1 @ c # m2) t \<Longrightarrow> \<not> starts_ci K (c # m2 @ t)"
  by (induction m1) auto

lemma canon_lt: "canon c = CHR ''<'' \<longleftrightarrow> c = CHR ''<''"
  by (auto simp: canon_def split: if_splits)

lemma canon_lt' [simp]: "canon (CHR ''<'') = CHR ''<''"
  by (simp add: canon_def)

lemma canon_chars:
  "canon (CHR ''>'') = CHR ''>''" "canon (CHR ''/'') = CHR ''/''"
  "canon (CHR ''='') = CHR ''=''" "canon (CHR ''f'') = CHR ''F''" "canon (CHR ''i'') = CHR ''I''"
  "canon (CHR ''l'') = CHR ''L''" "canon (CHR ''e'') = CHR ''E''" "canon (CHR ''d'') = CHR ''D''"
  "canon (CHR ''t'') = CHR ''T''" "canon (CHR ''p'') = CHR ''P''" "canon (CHR ''a'') = CHR ''A''"
  "canon (CHR ''h'') = CHR ''H''"
  by (simp_all add: canon_def)

lemma clear_no_lt: "list_all (\<lambda>c. c \<noteq> CHR ''<'') x \<Longrightarrow> clear (CHR ''<'' # K) x t"
  by (induction x) (auto simp: canon_lt dest: sym)

lemma starts_ci_straddle:
  assumes "list_all (\<lambda>p. canon p \<noteq> CHR ''<'') ps" and "t = [] \<or> hd t = CHR ''<''"
  shows "starts_ci ps (b @ t) \<Longrightarrow> starts_ci ps b"
  using assms(1)
proof (induction ps b rule: starts_ci.induct)
  case (1 s)
  then show ?case by simp
next
  case (2 p ps)
  with assms(2) show ?case by (cases t) auto
next
  case (3 p ps c cs)
  then show ?case by auto
qed

lemma clear_occurs:
  assumes "list_all (\<lambda>p. canon p \<noteq> CHR ''<'') K" and "t = [] \<or> hd t = CHR ''<''"
  shows "\<not> occurs_ci (CHR ''<'' # K) x \<Longrightarrow> clear (CHR ''<'' # K) x t"
proof (induction x)
  case Nil
  then show ?case by simp
next
  case (Cons c cs)
  then have "\<not> starts_ci (CHR ''<'' # K) (c # cs)" and "clear (CHR ''<'' # K) cs t" by auto
  moreover have "starts_ci K cs" if "starts_ci K (cs @ t)"
    using starts_ci_straddle[OF assms that] .
  ultimately show ?case by auto
qed

lemma starts_ci_same: "map canon m = map canon pat \<Longrightarrow> starts_ci pat (m @ t)"
proof (induction pat arbitrary: m)
  case Nil
  then show ?case by simp
next
  case (Cons p ps)
  then obtain c m' where "m = c # m'" "canon c = canon p" "map canon m' = map canon ps"
    by (cases m) auto
  with Cons.IH[of m'] show ?case by simp
qed

lemma canon_gt: "map canon g = map canon ''>'' \<Longrightarrow> g = ''>''"
  by (cases g) (auto simp: canon_def split: if_splits)

lemma same_ci_hd:
  "same_ci m (p # ps) \<Longrightarrow> \<exists>c m'. m = c # m' \<and> canon c = canon p \<and> same_ci m' ps"
  by (cases m) (auto simp: same_ci_def)

lemma same_ci_Nil: "same_ci m [] \<longleftrightarrow> m = []"
  by (simp add: same_ci_def)

lemma same_ci_Cons:
  "same_ci m (p # ps) \<longleftrightarrow> (\<exists>c m'. m = c # m' \<and> canon c = canon p \<and> same_ci m' ps)"
  by (cases m) (auto simp: same_ci_def)

lemmas same_ci_unfold = same_ci_Nil same_ci_Cons canon_chars

lemma space_not_p: "is_space c \<Longrightarrow> canon (CHR ''p'') \<noteq> canon c"
  by (auto simp: is_space_def canon_def)

lemma space_not_gt: "is_space c \<Longrightarrow> canon (CHR ''>'') \<noteq> canon c"
  by (auto simp: is_space_def canon_def)

lemma space_not_slash: "is_space c \<Longrightarrow> canon (CHR ''/'') \<noteq> canon c"
  by (auto simp: is_space_def canon_def)

lemma gt_not_space: "\<not> is_space (CHR ''>'')" "\<not> is_space (CHR ''/'')"
  by (simp_all add: is_space_def)

lemma attr_not_space: "same_ci attr ''path='' \<Longrightarrow> attr @ s = [] \<or> \<not> is_space (hd (attr @ s))"
  by (auto dest!: same_ci_hd simp: is_space_def canon_def split: if_splits)

lemma close_starts_lt: "same_ci close ''</file>'' \<Longrightarrow> close @ t = [] \<or> hd (close @ t) = CHR ''<''"
  by (clarsimp simp: same_ci_unfold canon_lt)

subsection \<open>The two expressions on a well-formed tag\<close>

lemma path_tail:
  assumes "path_ok path" and "k path s = Some r" 
    and "\<And>acc c cs. \<not> is_quote c \<Longrightarrow> k acc (c # cs) = None"
  shows "lazy_star dot k (path @ s) = Some r"
  unfolding lazy_star_def
proof (rule lazy_first)
  show "list_all dot path" using assms(1) by (simp add: path_ok_def list_all_iff)
next
  fix m1 c m2 assume "path = m1 @ c # m2"
  with assms(1) have "\<not> is_quote c" by (simp add: path_ok_def)
  then show "k ([] @ m1) (c # m2 @ s) = None" by (rule assms(3))
next
  show "k ([] @ path) s = Some r" using assms(2) by simp
qed

lemma body_clear:
  assumes "\<not> occurs_ci ''</file>'' body" and "same_ci close ''</file>''"
  shows "clear ''</file>'' body (close @ R)"
proof (rule clear_occurs)
  show "list_all (\<lambda>p. canon p \<noteq> CHR ''<'') ''/file>''" by (simp add: canon_def)
  from assms(2) show "close @ R = [] \<or> hd (close @ R) = CHR ''<''"
    by (auto dest!: same_ci_hd simp: canon_lt)
  show "\<not> occurs_ci ''</file>'' body" by fact
qed

lemma fileRegex_tag:
  assumes "wf_tag (FileTag kw gap attr q1 path q2 gap2 body close)"
  shows "fileRegex (render_tag (FileTag kw gap attr q1 path q2 gap2 body close) @ R)
         = Some (path, body, R)"
proof -
  from assms have kw: "same_ci kw ''<file''" and gap: "gap \<noteq> []" "list_all is_space gap"
    and attr: "same_ci attr ''path=''" and q: "is_quote q1" "is_quote q2"
    and path: "path_ok path" and gap2: "list_all is_space gap2"
    and body: "\<not> occurs_ci ''</file>'' body" and close: "same_ci close ''</file>''"
    by auto
  from gap obtain g gs where g: "gap = g # gs" "is_space g" "list_all is_space gs"
    by (cases gap) auto
  let ?kb = "\<lambda>p b. lit ''</file>'' (\<lambda>rest. Some (p, b, rest))"
  let ?k4 = "\<lambda>p. lit ''>'' (lazy_star any_char (?kb p))"
  let ?k2 = "\<lambda>p. chr is_quote (star is_space (?k4 p))"
  let ?k1 = "lit ''path='' (chr is_quote (lazy_star dot ?k2))"
  have 5: "lazy_star any_char (?kb path) (body @ close @ R) = Some (path, body, R)"
    unfolding lazy_star_def
  proof (rule lazy_first)
    show "list_all any_char body" by (simp add: any_char_def list_all_iff)
  next
    fix m1 c m2 assume b: "body = m1 @ c # m2"
    from body_clear[OF body close, of R] have "clear ''</file>'' (m1 @ c # m2) (close @ R)"
      unfolding b .
    then have "\<not> starts_ci ''</file>'' (c # m2 @ close @ R)"
      by (rule clear_split)
    then show "?kb path ([] @ m1) (c # m2 @ close @ R) = None"
      by (rule lit_None)
  next
    show "?kb path ([] @ body) (close @ R) = Some (path, body, R)"
      using close by (simp add: lit_same)
  qed
  have 4: "?k4 path (''>'' @ body @ close @ R) = Some (path, body, R)"
    using 5 by simp
  have 3: "star is_space (?k4 path) (gap2 @ ''>'' @ body @ close @ R) = Some (path, body, R)"
    using 4 gap2 by (subst star_det) (auto simp: space_not_gt gt_not_space)
  have 2: "?k2 path (q2 # gap2 @ ''>'' @ body @ close @ R) = Some (path, body, R)"
    using 3 q by (simp add: chr_def)
  have 1: "lazy_star dot ?k2 (path @ q2 # gap2 @ ''>'' @ body @ close @ R)
           = Some (path, body, R)"
    using path 2 by (rule path_tail) (simp add: chr_def)
  have 0: "?k1 (attr @ q1 # path @ q2 # gap2 @ ''>'' @ body @ close @ R) = Some (path, body, R)"
    using 1 q attr by (simp add: lit_same chr_def)
  have "star is_space ?k1 (gs @ attr @ q1 # path @ q2 # gap2 @ ''>'' @ body @ close @ R)
        = Some (path, body, R)"
    using 0 g(3) attr_not_space[OF attr] by (subst star_det) (auto simp: space_not_p)
  then have "plus1 is_space ?k1 (gap @ attr @ q1 # path @ q2 # gap2 @ ''>'' @ body @ close @ R)
        = Some (path, body, R)"
    using g by (simp add: plus1_def chr_def)
  then show ?thesis
    using kw by (simp add: fileRegex_def lit_same)
qed

lemma deleteRegex_tag:
  assumes "wf_tag (DeleteTag kw gap attr q1 path q2 gap2)"
  shows "deleteRegex (render_tag (DeleteTag kw gap attr q1 path q2 gap2) @ R) = Some (path, R)"
proof -
  from assms have kw: "same_ci kw ''<delete''" and gap: "gap \<noteq> []" "list_all is_space gap"
    and attr: "same_ci attr ''path=''" and q: "is_quote q1" "is_quote q2"
    and path: "path_ok path" and gap2: "list_all is_space gap2"
    by auto
  from gap obtain g gs where g: "gap = g # gs" "is_space g" "list_all is_space gs"
    by (cases gap) auto
  let ?k4 = "\<lambda>p. lit ''/>'' (\<lambda>rest. Some (p, rest))"
  let ?k2 = "\<lambda>p. chr is_quote (star is_space (?k4 p))"
  let ?k1 = "lit ''path='' (chr is_quote (lazy_star dot ?k2))"
  have 4: "?k4 path (''/>'' @ R) = Some (path, R)"
    by simp
  have 3: "star is_space (?k4 path) (gap2 @ ''/>'' @ R) = Some (path, R)"
    using 4 gap2 by (subst star_det) (auto simp: space_not_slash gt_not_space)
  have 2: "?k2 path (q2 # gap2 @ ''/>'' @ R) = Some (path, R)"
    using 3 q by (simp add: chr_def)
  have 1: "lazy_star dot ?k2 (path @ q2 # gap2 @ ''/>'' @ R) = Some (path, R)"
    using path 2 by (rule path_tail) (simp add: chr_def)
  have 0: "?k1 (attr @ q1 # path @ q2 # gap2 @ ''/>'' @ R) = Some (path, R)"
    using 1 q attr by (simp add: lit_same chr_def)
  have "star is_space ?k1 (gs @ attr @ q1 # path @ q2 # gap2 @ ''/>'' @ R) = Some (path, R)"
    using 0 g(3) attr_not_space[OF attr] by (subst star_det) (auto simp: space_not_p)
  then have "plus1 is_space ?k1 (gap @ attr @ q1 # path @ q2 # gap2 @ ''/>'' @ R)
        = Some (path, R)"
    using g by (simp add: plus1_def chr_def)
  then show ?thesis
    using kw by (simp add: deleteRegex_def lit_same)
qed

subsection \<open>Neither expression matches inside the other's tag or in the prose\<close>

lemma clear_file_in_delete_kw: "same_ci kw ''<delete'' \<Longrightarrow> clear ''<file'' kw t"
  by (clarsimp simp: same_ci_unfold)

lemma clear_delete_in_file_kw: "same_ci kw ''<file'' \<Longrightarrow> clear ''<delete'' kw t"
  by (clarsimp simp: same_ci_unfold)

lemma clear_delete_in_close: "same_ci close ''</file>'' \<Longrightarrow> clear ''<delete'' close t"
  by (clarsimp simp: same_ci_unfold)

lemma no_lt_space: "list_all is_space g \<Longrightarrow> list_all (\<lambda>c. c \<noteq> CHR ''<'') g"
  by (induction g) (auto simp: is_space_def)

lemma no_lt_attr: "same_ci attr ''path='' \<Longrightarrow> list_all (\<lambda>c. c \<noteq> CHR ''<'') attr"
  by (clarsimp simp: same_ci_unfold) (auto simp: canon_chars)

lemma no_lt_path: "path_ok path \<Longrightarrow> list_all (\<lambda>c. c \<noteq> CHR ''<'') path"
  by (induction path) (auto simp: path_ok_def)

lemma no_lt_quote: "is_quote q \<Longrightarrow> q \<noteq> CHR ''<''"
  by (auto simp: is_quote_def)

lemma clear_file_in_delete_tag:
  assumes "wf_tag (DeleteTag kw gap attr q1 path q2 gap2)"
  shows "clear ''<file'' (render_tag (DeleteTag kw gap attr q1 path q2 gap2)) t"
proof -
  from assms have "list_all (\<lambda>c. c \<noteq> CHR ''<'') (gap @ attr @ q1 # path @ q2 # gap2 @ ''/>'')"
    by (simp add: no_lt_space no_lt_attr no_lt_path no_lt_quote)
  then have "clear ''<file'' (gap @ attr @ q1 # path @ q2 # gap2 @ ''/>'') t"
    by (rule clear_no_lt)
  moreover from assms
  have "clear ''<file'' kw ((gap @ attr @ q1 # path @ q2 # gap2 @ ''/>'') @ t)"
    by (simp add: clear_file_in_delete_kw)
  ultimately have "clear ''<file'' (kw @ (gap @ attr @ q1 # path @ q2 # gap2 @ ''/>'')) t"
    by (simp only: clear_append simp_thms)
  then show ?thesis by simp
qed

lemma clear_delete_in_file_tag:
  assumes "wf_tag (FileTag kw gap attr q1 path q2 gap2 body close)"
  shows "clear ''<delete'' (render_tag (FileTag kw gap attr q1 path q2 gap2 body close)) t"
proof -
  let ?h = "gap @ attr @ q1 # path @ q2 # gap2 @ ''>''"
  from assms have "list_all (\<lambda>c. c \<noteq> CHR ''<'') ?h"
    by (simp add: no_lt_space no_lt_attr no_lt_path no_lt_quote)
  then have h: "clear ''<delete'' ?h (body @ close @ t)"
    by (rule clear_no_lt)
  from assms have k: "clear ''<delete'' kw (?h @ body @ close @ t)"
    by (simp add: clear_delete_in_file_kw)
  from assms have c: "clear ''<delete'' close t"
    by (simp add: clear_delete_in_close)
  have b: "clear ''<delete'' body (close @ t)"
  proof (rule clear_occurs)
    show "list_all (\<lambda>p. canon p \<noteq> CHR ''<'') ''delete''" by (simp add: canon_def)
    from assms have "same_ci close ''</file>''" by simp
    then show "close @ t = [] \<or> hd (close @ t) = CHR ''<''"
      by (rule close_starts_lt)
    from assms show "\<not> occurs_ci ''<delete'' body" by simp
  qed
  from k h b c have "clear ''<delete'' (kw @ ?h @ body @ close) t"
    by (simp only: clear_append append_assoc simp_thms)
  then show ?thesis by simp
qed

lemma tag_starts_lt: "wf_tag t \<Longrightarrow> render_tag t @ R = [] \<or> hd (render_tag t @ R) = CHR ''<''"
  by (cases t) (clarsimp simp: same_ci_unfold canon_lt)+

lemma clear_prose:
  assumes "prose_ok x" and "t = [] \<or> hd t = CHR ''<''"
  shows "clear ''<file'' x t" and "clear ''<delete'' x t"
proof -
  show "clear ''<file'' x t"
  proof (rule clear_occurs)
    show "list_all (\<lambda>p. canon p \<noteq> CHR ''<'') ''file''" by (simp add: canon_def)
  qed (simp_all add: assms(1)[unfolded prose_ok_def] assms(2))
  show "clear ''<delete'' x t"
  proof (rule clear_occurs)
    show "list_all (\<lambda>p. canon p \<noteq> CHR ''<'') ''delete''" by (simp add: canon_def)
  qed (simp_all add: assms(1)[unfolded prose_ok_def] assms(2))
qed

lemma fileRegex_needs_kw: "\<not> starts_ci ''<file'' s \<Longrightarrow> fileRegex s = None"
  unfolding fileRegex_def by (rule lit_None)

lemma deleteRegex_needs_kw: "\<not> starts_ci ''<delete'' s \<Longrightarrow> deleteRegex s = None"
  unfolding deleteRegex_def by (rule lit_None)

lemma file_matches_cong: "exec fileRegex s = exec fileRegex s' \<Longrightarrow> file_matches s = file_matches s'"
  by (simp add: file_matches.simps[of s] file_matches.simps[of s'])

lemma delete_matches_cong:
  "exec deleteRegex s = exec deleteRegex s' \<Longrightarrow> delete_matches s = delete_matches s'"
  by (simp add: delete_matches.simps[of s] delete_matches.simps[of s'])

lemma file_matches_render:
  assumes "wf_doc segs tail"
  shows "map (\<lambda>(path, body). \<lparr>utype = TWrite, upath = path, ucontent = Some (trim body)\<rparr>)
           (file_matches (render segs tail))
         = map directive_of (filter is_file_tag (map snd segs))"
  using assms
proof (induction segs)
  case Nil
  then have "clear ''<file'' tail []" by (simp add: wf_doc_def clear_prose)
  then have "exec fileRegex (tail @ []) = exec fileRegex []"
    by (rule exec_clear[rotated]) (rule fileRegex_needs_kw)
  then have "exec fileRegex tail = None" by (simp add: fileRegex_needs_kw)
  then show ?case by (simp add: file_matches.simps[of tail])
next
  case (Cons seg segs)
  obtain x t where seg: "seg = (x, t)" by (cases seg)
  let ?R = "render segs tail"
  from Cons.prems seg have x: "prose_ok x" and t: "wf_tag t" and rest: "wf_doc segs tail"
    by (simp_all add: wf_doc_def)
  from x tag_starts_lt[OF t] have "clear ''<file'' x (render_tag t @ ?R)"
    by (rule clear_prose)
  then have skip: "exec fileRegex (x @ render_tag t @ ?R) = exec fileRegex (render_tag t @ ?R)"
    by (rule exec_clear[rotated]) (rule fileRegex_needs_kw)
  show ?case
  proof (cases t)
    case (FileTag kw gap attr q1 path q2 gap2 body close)
    with t have "fileRegex (render_tag t @ ?R) = Some (path, body, ?R)"
      by (simp only: fileRegex_tag)
    then have "exec fileRegex (x @ render_tag t @ ?R) = Some (path, body, ?R)"
      by (simp only: skip exec_hit)
    then have "file_matches (render (seg # segs) tail) = (path, body) # file_matches ?R"
      by (simp add: seg file_matches.simps[of "x @ render_tag t @ ?R"])
    with Cons.IH[OF rest] FileTag seg show ?thesis by simp
  next
    case (DeleteTag kw gap attr q1 path q2 gap2)
    with t have "clear ''<file'' (render_tag t) ?R"
      by (simp only: clear_file_in_delete_tag)
    then have "exec fileRegex (render_tag t @ ?R) = exec fileRegex ?R"
      by (rule exec_clear[rotated]) (rule fileRegex_needs_kw)
    with skip have "exec fileRegex (x @ render_tag t @ ?R) = exec fileRegex ?R"
      by simp
    then have "file_matches (x @ render_tag t @ ?R) = file_matches ?R"
      by (rule file_matches_cong)
    then have "file_matches (render (seg # segs) tail) = file_matches ?R"
      by (simp add: seg)
    with Cons.IH[OF rest] DeleteTag seg show ?thesis by simp
  qed
qed

lemma delete_matches_render:
  assumes "wf_doc segs tail"
  shows "map (\<lambda>path. \<lparr>utype = TDelete, upath = path, ucontent = None\<rparr>)
           (delete_matches (render segs tail))
         = map directive_of (filter (\<lambda>t. \<not> is_file_tag t) (map snd segs))"
  using assms
proof (induction segs)
  case Nil
  then have "clear ''<delete'' tail []" by (simp add: wf_doc_def clear_prose)
  then have "exec deleteRegex (tail @ []) = exec deleteRegex []"
    by (rule exec_clear[rotated]) (rule deleteRegex_needs_kw)
  then have "exec deleteRegex tail = None" by (simp add: deleteRegex_needs_kw)
  then show ?case by (simp add: delete_matches.simps[of tail])
next
  case (Cons seg segs)
  obtain x t where seg: "seg = (x, t)" by (cases seg)
  let ?R = "render segs tail"
  from Cons.prems seg have x: "prose_ok x" and t: "wf_tag t" and rest: "wf_doc segs tail"
    by (simp_all add: wf_doc_def)
  from x tag_starts_lt[OF t] have "clear ''<delete'' x (render_tag t @ ?R)"
    by (rule clear_prose)
  then have skip: "exec deleteRegex (x @ render_tag t @ ?R) = exec deleteRegex (render_tag t @ ?R)"
    by (rule exec_clear[rotated]) (rule deleteRegex_needs_kw)
  show ?case
  proof (cases t)
    case (DeleteTag kw gap attr q1 path q2 gap2)
    with t have "deleteRegex (render_tag t @ ?R) = Some (path, ?R)"
      by (simp only: deleteRegex_tag)
    then have "exec deleteRegex (x @ render_tag t @ ?R) = Some (path, ?R)"
      by (simp only: skip exec_hit)
    then have "delete_matches (render (seg # segs) tail) = path # delete_matches ?R"
      by (simp add: seg delete_matches.simps[of "x @ render_tag t @ ?R"])
    with Cons.IH[OF rest] DeleteTag seg show ?thesis by simp
  next
    case (FileTag kw gap attr q1 path q2 gap2 body close)
    with t have "clear ''<delete'' (render_tag t) ?R"
      by (simp only: clear_delete_in_file_tag)
    then have "exec deleteRegex (render_tag t @ ?R) = exec deleteRegex ?R"
      by (rule exec_clear[rotated]) (rule deleteRegex_needs_kw)
    with skip have "exec deleteRegex (x @ render_tag t @ ?R) = exec deleteRegex ?R"
      by simp
    then have "delete_matches (x @ render_tag t @ ?R) = delete_matches ?R"
      by (rule delete_matches_cong)
    then have "delete_matches (render (seg # segs) tail) = delete_matches ?R"
      by (simp add: seg)
    with Cons.IH[OF rest] FileTag seg show ?thesis by simp
  qed
qed

text \<open>
  C2, as the program has it.  When the text, every fence marker removed from it, consists
  of well-formed write and delete tags in any order with prose around them, extraction gives
  the directives of the write tags, in the order of the text, and then the directives of the
  delete tags, in the order of the text: as many write directives as write tags and as many
  delete directives as delete tags.
\<close>

theorem writes_then_deletes:
  assumes "wf_doc segs tail" and "cleanedContent content = render segs tail"
  shows "extract_updates content
         = map directive_of (filter is_file_tag (map snd segs))
           @ map directive_of (filter (\<lambda>t. \<not> is_file_tag t) (map snd segs))"
  using assms
  by (simp add: extract_updates_def file_matches_render delete_matches_render)

theorem writes_then_deletes_witness:
  "wf_doc fenced_segs [CHR 0x0A]
   \<and> cleanedContent fenced_reply = render fenced_segs [CHR 0x0A]
   \<and> extract_updates fenced_reply
     = [\<lparr>utype = TWrite, upath = ''a.txt'', ucontent = Some ''hello''\<rparr>,
        \<lparr>utype = TDelete, upath = ''b.txt'', ucontent = None\<rparr>]"
proof -
  have wf: "wf_doc fenced_segs [CHR 0x0A]"
    by code_simp
  have cl: "cleanedContent fenced_reply = render fenced_segs [CHR 0x0A]"
    by code_simp
  have tr: "trim ([CHR 0x0A] @ ''hello'' @ [CHR 0x0A]) = ''hello''"
    by code_simp
  show ?thesis
    using wf cl writes_then_deletes[OF wf cl] tr
    by (simp add: fenced_segs_def)
qed

text \<open>
  C2, as the claim has it, fails on a text in which a fence marker stands inside a keyword,
  because the markers are removed before the tags are looked for.  The first text holds no
  tag and gives a write directive; the second holds one well-formed write tag and no delete
  tag, and gives a write directive and a delete directive.
\<close>

theorem fence_inside_keyword_makes_a_tag:
  "wf_doc [] split_file_reply
   \<and> extract_updates split_file_reply
     = [\<lparr>utype = TWrite, upath = ''a'', ucontent = Some ''x''\<rparr>]
   \<and> wf_doc split_delete_segs []
   \<and> split_delete_reply = render split_delete_segs []
   \<and> filter (\<lambda>t. \<not> is_file_tag t) (map snd split_delete_segs) = []
   \<and> extract_updates split_delete_reply
     = [\<lparr>utype = TWrite, upath = ''a'',
          ucontent = Some (''x<delete path='' @ [dq] @ ''y'' @ [dq] @ ''/>'')\<rparr>,
        \<lparr>utype = TDelete, upath = ''y'', ucontent = None\<rparr>]"
  by code_simp

subsection \<open>What every match consists of\<close>

lemma lazy_from_shortest:
  "lazy_from P k acc s = Some x \<Longrightarrow>
   \<exists>m s'. s = m @ s' \<and> list_all P m \<and> k (acc @ m) s' = Some x
     \<and> (\<forall>m1 c m2. m = m1 @ c # m2 \<longrightarrow> k (acc @ m1) (c # m2 @ s') = None)"
proof (induction s arbitrary: acc)
  case Nil
  then show ?case by simp
next
  case (Cons c cs)
  show ?case
  proof (cases "k acc (c # cs)")
    case (Some r)
    with Cons.prems have "k (acc @ []) (c # cs) = Some x" by simp
    then have "c # cs = [] @ (c # cs) \<and> list_all P [] \<and> k (acc @ []) (c # cs) = Some x
        \<and> (\<forall>m1 d m2. [] = m1 @ d # m2 \<longrightarrow> k (acc @ m1) (d # m2 @ c # cs) = None)"
      by simp
    then show ?thesis by blast
  next
    case None
    with Cons.prems have pc: "P c" and rest: "lazy_from P k (acc @ [c]) cs = Some x"
      by (auto split: if_splits)
    from Cons.IH[OF rest] obtain m s'
      where m: "cs = m @ s'" "list_all P m" "k ((acc @ [c]) @ m) s' = Some x"
        and sh: "\<forall>m1 d m2. m = m1 @ d # m2 \<longrightarrow> k ((acc @ [c]) @ m1) (d # m2 @ s') = None"
      by blast
    have "k (acc @ m1) (d # m2 @ s') = None" if "c # m = m1 @ d # m2" for m1 d m2
    proof (cases m1)
      case Nil
      with that m None show ?thesis by simp
    next
      case (Cons a m1')
      with that have "m = m1' @ d # m2" "a = c" by simp_all
      with sh Cons show ?thesis by simp
    qed
    with pc m have "c # cs = (c # m) @ s' \<and> list_all P (c # m) \<and> k (acc @ (c # m)) s' = Some x
        \<and> (\<forall>m1 d m2. c # m = m1 @ d # m2 \<longrightarrow> k (acc @ m1) (d # m2 @ s') = None)"
      by simp
    then show ?thesis by blast
  qed
qed

lemma lit_total: "(\<And>r. k r \<noteq> None) \<Longrightarrow> starts_ci pat s \<Longrightarrow> lit pat k s \<noteq> None"
  by (induction pat k s rule: lit.induct) auto

lemma clear_splits:
  "(\<And>m1 c m2. x = m1 @ c # m2 \<Longrightarrow> \<not> starts_ci K (c # m2 @ t)) \<Longrightarrow> clear K x t"
proof (induction x)
  case Nil
  then show ?case by simp
next
  case (Cons a x)
  have "\<not> starts_ci K (a # x @ t)" using Cons.prems[of "[]" a x] by simp
  moreover have "clear K x t"
  proof (rule Cons.IH)
    fix m1 c m2 assume "x = m1 @ c # m2"
    then show "\<not> starts_ci K (c # m2 @ t)" using Cons.prems[of "a # m1" c m2] by simp
  qed
  ultimately show ?case by simp
qed

lemma shortest_splits:
  "(\<And>m1 c m2. x = m1 @ c # m2 \<Longrightarrow> \<not> (is_quote c \<and> ends (m2 @ t))) \<Longrightarrow> shortest_path ends x t"
proof (induction x)
  case Nil
  then show ?case by simp
next
  case (Cons a x)
  have "\<not> (is_quote a \<and> ends (x @ t))" using Cons.prems[of "[]" a x] by simp
  moreover have "shortest_path ends x t"
  proof (rule Cons.IH)
    fix m1 c m2 assume "x = m1 @ c # m2"
    then show "\<not> (is_quote c \<and> ends (m2 @ t))" using Cons.prems[of "a # m1" c m2] by simp
  qed
  ultimately show ?case by simp
qed

lemma lazy_occurs:
  "occurs_ci pat r \<Longrightarrow> lazy_from any_char (\<lambda>b. lit pat (\<lambda>rest. Some (f b rest))) acc r \<noteq> None"
proof (induction r arbitrary: acc)
  case Nil
  then show ?case by (simp add: lit_total)
next
  case (Cons c cs)
  show ?case
  proof (cases "starts_ci pat (c # cs)")
    case True
    then have "lit pat (\<lambda>rest. Some (f acc rest)) (c # cs) \<noteq> None"
      by (intro lit_total) simp_all
    then show ?thesis by auto
  next
    case False
    with Cons.prems have "occurs_ci pat cs" by simp
    from Cons.IH[OF this, of "acc @ [c]"] show ?thesis
      by (auto simp: any_char_def split: option.splits)
  qed
qed

lemma star_spaces:
  assumes "\<And>c cs. is_space c \<Longrightarrow> k (c # cs) = None"
  shows "star is_space k s = k (dropWhile is_space s)"
proof (induction s)
  case Nil
  then show ?case by simp
next
  case (Cons c cs)
  then show ?case using assms[of c cs] by (cases "k (dropWhile is_space cs)") auto
qed

lemma open_tag_ends_matches:
  assumes "is_quote c" and "open_tag_ends x"
  shows "chr is_quote (star is_space (lit ''>'' (lazy_star any_char
           (\<lambda>b. lit ''</file>'' (\<lambda>rest. Some (f b rest)))))) (c # x) \<noteq> None"
proof -
  from assms(2) obtain r where d: "dropWhile is_space x = CHR ''>'' # r" and o: "occurs_ci ''</file>'' r"
    by (auto simp: open_tag_ends_def split: list.splits)
  let ?k = "lit ''>'' (lazy_star any_char (\<lambda>b. lit ''</file>'' (\<lambda>rest. Some (f b rest))))"
  have "star is_space ?k x = ?k (dropWhile is_space x)"
    by (rule star_spaces) (simp add: space_not_gt)
  also have "\<dots> = lazy_star any_char (\<lambda>b. lit ''</file>'' (\<lambda>rest. Some (f b rest))) r"
    by (simp add: d)
  finally show ?thesis
    using assms(1) lazy_occurs[OF o, of f "[]"] by (simp add: chr_def lazy_star_def)
qed

lemma delete_tag_ends_matches:
  assumes "is_quote c" and "delete_tag_ends x"
  shows "chr is_quote (star is_space (lit ''/>'' (\<lambda>rest. Some (f rest)))) (c # x) \<noteq> None"
proof -
  let ?k = "lit ''/>'' (\<lambda>rest. Some (f rest))"
  have "star is_space ?k x = ?k (dropWhile is_space x)"
    by (rule star_spaces) (simp add: space_not_slash)
  moreover have "?k (dropWhile is_space x) \<noteq> None"
    using assms(2) unfolding delete_tag_ends_def by (intro lit_total) simp_all
  ultimately show ?thesis
    using assms(1) by (simp add: chr_def)
qed

lemma fileRegex_read:
  assumes "fileRegex s = Some (path, body, rest)"
  shows "\<exists>kw gap attr q1 q2 gap2 close.
           s = render_tag (FileTag kw gap attr q1 path q2 gap2 body close) @ rest
         \<and> tag_read (FileTag kw gap attr q1 path q2 gap2 body close) rest"
proof -
  let ?kb = "\<lambda>p b. lit ''</file>'' (\<lambda>rest. Some (p, b, rest))"
  let ?k2 = "\<lambda>p. chr is_quote (star is_space (lit ''>'' (lazy_star any_char (?kb p))))"
  from assms obtain kw s1 where 1: "s = kw @ s1" "map canon kw = map canon ''<file''"
    and k1: "plus1 is_space (lit ''path='' (chr is_quote (lazy_star dot ?k2))) s1
             = Some (path, body, rest)"
    unfolding fileRegex_def by (blast dest: lit_sound)
  from k1 obtain c s2 where 2: "s1 = c # s2" "is_space c"
    and k2: "star is_space (lit ''path='' (chr is_quote (lazy_star dot ?k2))) s2
             = Some (path, body, rest)"
    unfolding plus1_def by (blast dest: chr_sound)
  from k2 obtain w s3 where 3: "s2 = w @ s3" "list_all is_space w"
    and k3: "lit ''path='' (chr is_quote (lazy_star dot ?k2)) s3 = Some (path, body, rest)"
    by (blast dest: star_sound)
  from k3 obtain attr s4 where 4: "s3 = attr @ s4" "map canon attr = map canon ''path=''"
    and k4: "chr is_quote (lazy_star dot ?k2) s4 = Some (path, body, rest)"
    by (blast dest: lit_sound)
  from k4 obtain q1 s5 where 5: "s4 = q1 # s5" "is_quote q1"
    and k5: "lazy_from dot ?k2 [] s5 = Some (path, body, rest)"
    unfolding lazy_star_def by (blast dest: chr_sound)
  from lazy_from_shortest[OF k5] obtain pth s6 where 6: "s5 = pth @ s6" "list_all dot pth"
    and k6: "?k2 pth s6 = Some (path, body, rest)"
    and sh6: "\<And>m1 d m2. pth = m1 @ d # m2 \<Longrightarrow> ?k2 m1 (d # m2 @ s6) = None"
    by auto
  from k6 obtain q2 s7 where 7: "s6 = q2 # s7" "is_quote q2"
    and k7: "star is_space (lit ''>'' (lazy_star any_char (?kb pth))) s7 = Some (path, body, rest)"
    by (blast dest: chr_sound)
  from k7 obtain ws2 s8 where 8: "s7 = ws2 @ s8" "list_all is_space ws2"
    and k8: "lit ''>'' (lazy_star any_char (?kb pth)) s8 = Some (path, body, rest)"
    by (blast dest: star_sound)
  from k8 obtain gt s9 where 9: "s8 = gt @ s9" "map canon gt = map canon ''>''"
    and k9: "lazy_from any_char (?kb pth) [] s9 = Some (path, body, rest)"
    unfolding lazy_star_def by (blast dest: lit_sound)
  from lazy_from_shortest[OF k9] obtain bdy s10 where 10: "s9 = bdy @ s10"
    and k10: "?kb pth bdy s10 = Some (path, body, rest)"
    and sh10: "\<And>m1 d m2. bdy = m1 @ d # m2 \<Longrightarrow> ?kb pth m1 (d # m2 @ s10) = None"
    by auto
  from lit_sound[OF k10] obtain cl s11
    where 11: "s10 = cl @ s11" "map canon cl = map canon ''</file>''"
    and k11: "Some (pth, bdy, s11) = Some (path, body, rest)"
    by blast
  from k11 have e: "pth = path" "bdy = body" "s11 = rest" by auto
  have gt: "gt = ''>''" using 9(2) by (rule canon_gt)
  have shape: "s = render_tag (FileTag kw (c # w) attr q1 path q2 ws2 body cl) @ rest"
    using 1 2 3 4 5 6 7 8 9 10 11 e gt by simp
  have sp: "shortest_path open_tag_ends path (q2 # ws2 @ ''>'' @ body @ cl @ rest)"
  proof (rule shortest_splits)
    fix m1 d m2 assume "path = m1 @ d # m2"
    with sh6[of m1 d m2] e have n: "?k2 m1 (d # m2 @ s6) = None" by simp
    have "s6 = q2 # ws2 @ ''>'' @ body @ cl @ rest" using 7 8 9 10 11 e gt by simp
    with n open_tag_ends_matches[of d "m2 @ s6" "\<lambda>b rest. (m1, b, rest)"]
    show "\<not> (is_quote d \<and> open_tag_ends (m2 @ q2 # ws2 @ ''>'' @ body @ cl @ rest))"
      by auto
  qed
  have cb: "clear ''</file>'' body (cl @ rest)"
  proof (rule clear_splits)
    fix m1 d m2 assume "body = m1 @ d # m2"
    with sh10[of m1 d m2] e 11
    have n: "lit ''</file>'' (\<lambda>rest. Some (path, m1, rest)) (d # m2 @ cl @ rest) = None"
      by simp
    show "\<not> starts_ci ''</file>'' (d # m2 @ cl @ rest)"
    proof
      assume st: "starts_ci ''</file>'' (d # m2 @ cl @ rest)"
      have "lit ''</file>'' (\<lambda>rest. Some (path, m1, rest)) (d # m2 @ cl @ rest) \<noteq> None"
        by (rule lit_total[OF _ st]) simp
      from this n show False by (rule notE)
    qed
  qed
  have "tag_read (FileTag kw (c # w) attr q1 path q2 ws2 body cl) rest"
    using 1(2) 2(2) 3(2) 4(2) 5(2) 6(2) 7(2) 8(2) 11(2) e sp cb
    by (simp add: same_ci_def)
  with shape show ?thesis by blast
qed

lemma deleteRegex_read:
  assumes "deleteRegex s = Some (path, rest)"
  shows "\<exists>kw gap attr q1 q2 gap2.
           s = render_tag (DeleteTag kw gap attr q1 path q2 gap2) @ rest
         \<and> tag_read (DeleteTag kw gap attr q1 path q2 gap2) rest"
proof -
  let ?k2 = "\<lambda>p. chr is_quote (star is_space (lit ''/>'' (\<lambda>rest. Some (p, rest))))"
  from assms obtain kw s1 where 1: "s = kw @ s1" "map canon kw = map canon ''<delete''"
    and k1: "plus1 is_space (lit ''path='' (chr is_quote (lazy_star dot ?k2))) s1
             = Some (path, rest)"
    unfolding deleteRegex_def by (blast dest: lit_sound)
  from k1 obtain c s2 where 2: "s1 = c # s2" "is_space c"
    and k2: "star is_space (lit ''path='' (chr is_quote (lazy_star dot ?k2))) s2
             = Some (path, rest)"
    unfolding plus1_def by (blast dest: chr_sound)
  from k2 obtain w s3 where 3: "s2 = w @ s3" "list_all is_space w"
    and k3: "lit ''path='' (chr is_quote (lazy_star dot ?k2)) s3 = Some (path, rest)"
    by (blast dest: star_sound)
  from k3 obtain attr s4 where 4: "s3 = attr @ s4" "map canon attr = map canon ''path=''"
    and k4: "chr is_quote (lazy_star dot ?k2) s4 = Some (path, rest)"
    by (blast dest: lit_sound)
  from k4 obtain q1 s5 where 5: "s4 = q1 # s5" "is_quote q1"
    and k5: "lazy_from dot ?k2 [] s5 = Some (path, rest)"
    unfolding lazy_star_def by (blast dest: chr_sound)
  from lazy_from_shortest[OF k5] obtain pth s6 where 6: "s5 = pth @ s6" "list_all dot pth"
    and k6: "?k2 pth s6 = Some (path, rest)"
    and sh6: "\<And>m1 d m2. pth = m1 @ d # m2 \<Longrightarrow> ?k2 m1 (d # m2 @ s6) = None"
    by auto
  from k6 obtain q2 s7 where 7: "s6 = q2 # s7" "is_quote q2"
    and k7: "star is_space (lit ''/>'' (\<lambda>rest. Some (pth, rest))) s7 = Some (path, rest)"
    by (blast dest: chr_sound)
  from k7 obtain ws2 s8 where 8: "s7 = ws2 @ s8" "list_all is_space ws2"
    and k8: "lit ''/>'' (\<lambda>rest. Some (pth, rest)) s8 = Some (path, rest)"
    by (blast dest: star_sound)
  from lit_sound[OF k8] obtain cl s9
    where 9: "s8 = cl @ s9" "map canon cl = map canon ''/>''"
    and k9: "Some (pth, s9) = Some (path, rest)"
    by blast
  from k9 have e: "pth = path" "s9 = rest" by auto
  have cl: "cl = ''/>''" using 9(2)
    by (auto simp: map_eq_Cons_conv canon_def split: if_splits)
  have shape: "s = render_tag (DeleteTag kw (c # w) attr q1 path q2 ws2) @ rest"
    using 1 2 3 4 5 6 7 8 9 e cl by simp
  have sp: "shortest_path delete_tag_ends path (q2 # ws2 @ ''/>'' @ rest)"
  proof (rule shortest_splits)
    fix m1 d m2 assume "path = m1 @ d # m2"
    with sh6[of m1 d m2] e have n: "?k2 m1 (d # m2 @ s6) = None" by simp
    have "s6 = q2 # ws2 @ ''/>'' @ rest" using 7 8 9 e cl by simp
    with n delete_tag_ends_matches[of d "m2 @ s6" "\<lambda>rest. (m1, rest)"]
    show "\<not> (is_quote d \<and> delete_tag_ends (m2 @ q2 # ws2 @ ''/>'' @ rest))"
      by auto
  qed
  have "tag_read (DeleteTag kw (c # w) attr q1 path q2 ws2) rest"
    using 1(2) 2(2) 3(2) 4(2) 5(2) 6(2) 7(2) 8(2) e sp
    by (simp add: same_ci_def)
  with shape show ?thesis by blast
qed

lemma file_matches_read:
  "(path, body) \<in> set (file_matches s) \<Longrightarrow>
   \<exists>pre kw gap attr q1 q2 gap2 close post.
      s = pre @ render_tag (FileTag kw gap attr q1 path q2 gap2 body close) @ post
    \<and> tag_read (FileTag kw gap attr q1 path q2 gap2 body close) post"
proof (induction s rule: file_matches.induct)
  case (1 s)
  show ?case
  proof (cases "exec fileRegex s")
    case None
    with "1.prems" show ?thesis by (simp add: file_matches.simps[of s])
  next
    case (Some r)
    obtain p b rest where r: "r = (p, b, rest)" by (cases r)
    from exec_sound[OF Some[unfolded r]] obtain pre0 s'
      where s: "s = pre0 @ s'" and m: "fileRegex s' = Some (p, b, rest)"
      by blast
    from fileRegex_read[OF m] obtain kw gap attr q1 q2 gap2 close
      where s': "s' = render_tag (FileTag kw gap attr q1 p q2 gap2 b close) @ rest"
        and t: "tag_read (FileTag kw gap attr q1 p q2 gap2 b close) rest"
      by blast
    from "1.prems" Some r have "(path, body) = (p, b) \<or> (path, body) \<in> set (file_matches rest)"
      by (simp add: file_matches.simps[of s])
    then show ?thesis
    proof
      assume "(path, body) = (p, b)"
      with s s' t show ?thesis by blast
    next
      assume "(path, body) \<in> set (file_matches rest)"
      from "1.IH"[OF Some r[symmetric] refl this] obtain pre kw' gap' attr' q1' q2' gap2' close' post
        where rest: "rest = pre @ render_tag (FileTag kw' gap' attr' q1' path q2' gap2' body close') @ post"
          and t': "tag_read (FileTag kw' gap' attr' q1' path q2' gap2' body close') post"
        by blast
      have "s = (pre0 @ render_tag (FileTag kw gap attr q1 p q2 gap2 b close) @ pre)
                @ render_tag (FileTag kw' gap' attr' q1' path q2' gap2' body close') @ post"
        unfolding s s' rest by simp
      with t' show ?thesis by blast
    qed
  qed
qed

lemma delete_matches_read:
  "path \<in> set (delete_matches s) \<Longrightarrow>
   \<exists>pre kw gap attr q1 q2 gap2 post.
      s = pre @ render_tag (DeleteTag kw gap attr q1 path q2 gap2) @ post
    \<and> tag_read (DeleteTag kw gap attr q1 path q2 gap2) post"
proof (induction s rule: delete_matches.induct)
  case (1 s)
  show ?case
  proof (cases "exec deleteRegex s")
    case None
    with "1.prems" show ?thesis by (simp add: delete_matches.simps[of s])
  next
    case (Some r)
    obtain p rest where r: "r = (p, rest)" by (cases r)
    from exec_sound[OF Some[unfolded r]] obtain pre0 s'
      where s: "s = pre0 @ s'" and m: "deleteRegex s' = Some (p, rest)"
      by blast
    from deleteRegex_read[OF m] obtain kw gap attr q1 q2 gap2
      where s': "s' = render_tag (DeleteTag kw gap attr q1 p q2 gap2) @ rest"
        and t: "tag_read (DeleteTag kw gap attr q1 p q2 gap2) rest"
      by blast
    from "1.prems" Some r have "path = p \<or> path \<in> set (delete_matches rest)"
      by (simp add: delete_matches.simps[of s])
    then show ?thesis
    proof
      assume "path = p"
      with s s' t show ?thesis by blast
    next
      assume "path \<in> set (delete_matches rest)"
      from "1.IH"[OF Some r[symmetric] this] obtain pre kw' gap' attr' q1' q2' gap2' post
        where rest: "rest = pre @ render_tag (DeleteTag kw' gap' attr' q1' path q2' gap2') @ post"
          and t': "tag_read (DeleteTag kw' gap' attr' q1' path q2' gap2') post"
        by blast
      have "s = (pre0 @ render_tag (DeleteTag kw gap attr q1 p q2 gap2) @ pre)
                @ render_tag (DeleteTag kw' gap' attr' q1' path q2' gap2') @ post"
        unfolding s s' rest by simp
      with t' show ?thesis by blast
    qed
  qed
qed

lemma tag_read_path: "tag_read t post \<Longrightarrow> list_all dot (upath (directive_of t))"
  by (cases t) simp_all

text \<open>
  C9, as the program has it.  Every extracted directive is read from a tag of the text
  whose fence markers have been removed: the text is some prefix, the tag and a rest, the tag
  is one of the grammar, and the directive's path is the text between the quotes of that tag,
  the shortest one that lets the tag end after the closing quote.  The path holds no line
  terminator; nothing else is asked of it, and it may be empty.
\<close>

theorem extracted_directive_is_read_from_a_tag:
  assumes "u \<in> set (extract_updates content)"
  shows "list_all dot (upath u)
       \<and> (\<exists>pre t post. cleanedContent content = pre @ render_tag t @ post
             \<and> tag_read t post \<and> directive_of t = u)"
proof -
  have "\<exists>pre t post. cleanedContent content = pre @ render_tag t @ post
          \<and> tag_read t post \<and> directive_of t = u"
  proof (cases "utype u")
    case TWrite
    with assms obtain path body where pb: "(path, body) \<in> set (file_matches (cleanedContent content))"
      and u: "u = \<lparr>utype = TWrite, upath = path, ucontent = Some (trim body)\<rparr>"
      by (auto simp: extract_updates_def)
    from file_matches_read[OF pb] obtain pre kw gap attr q1 q2 gap2 close post
      where "cleanedContent content = pre @ render_tag (FileTag kw gap attr q1 path q2 gap2 body close) @ post"
        and "tag_read (FileTag kw gap attr q1 path q2 gap2 body close) post"
      by blast
    moreover have "directive_of (FileTag kw gap attr q1 path q2 gap2 body close) = u"
      using u by simp
    ultimately show ?thesis by blast
  next
    case TDelete
    with assms obtain path where p: "path \<in> set (delete_matches (cleanedContent content))"
      and u: "u = \<lparr>utype = TDelete, upath = path, ucontent = None\<rparr>"
      by (auto simp: extract_updates_def)
    from delete_matches_read[OF p] obtain pre kw gap attr q1 q2 gap2 post
      where "cleanedContent content = pre @ render_tag (DeleteTag kw gap attr q1 path q2 gap2) @ post"
        and "tag_read (DeleteTag kw gap attr q1 path q2 gap2) post"
      by blast
    moreover have "directive_of (DeleteTag kw gap attr q1 path q2 gap2) = u"
      using u by simp
    ultimately show ?thesis by blast
  qed
  then show ?thesis by (auto dest: tag_read_path)
qed

theorem extracted_directive_is_read_from_a_tag_witness:
  "\<lparr>utype = TDelete, upath = ''b.txt'', ucontent = None\<rparr> \<in> set (extract_updates sample_reply)
   \<and> list_all dot ''b.txt''
   \<and> (\<exists>pre t post. cleanedContent sample_reply = pre @ render_tag t @ post
         \<and> tag_read t post
         \<and> directive_of t = \<lparr>utype = TDelete, upath = ''b.txt'', ucontent = None\<rparr>)"
proof -
  have h: "\<lparr>utype = TDelete, upath = ''b.txt'', ucontent = None\<rparr> \<in> set (extract_updates sample_reply)"
    by (simp add: extract_sample_reply)
  from h extracted_directive_is_read_from_a_tag[OF h] show ?thesis by simp
qed

text \<open>
  C9, as the claim has it, fails on tags whose path attribute is empty: both are extracted,
  with the empty path.
\<close>

theorem empty_path_is_extracted:
  "extract_updates (''<file path='' @ [dq, dq] @ ''>x</file><delete path='' @ [sq, sq] @ ''/>'')
   = [\<lparr>utype = TWrite, upath = [], ucontent = Some ''x''\<rparr>,
      \<lparr>utype = TDelete, upath = [], ucontent = None\<rparr>]"
  by code_simp

lemma write_then_read:
  assumes "utype u = TWrite" and "ucontent u = Some c"
    and "flt (Mkdir (dirname (resolve (upath u)))) = None"
    and "flt (WriteFile (resolve (upath u))) = None"
    and "rflt (ReadFile (resolve (upath u))) = None"
  shows "readFile rflt (resolve (upath u)) (apply_update flt b resolve dirname u w) = Inr c"
  using assms
  by (simp add: apply_update_def Let_def mkdir_def copyFile_def writeFile_def say_def
      readFile_def content_or_empty_def split: option.splits)

text \<open>
  C6, as the program has it.  An extracted write directive is read from a write tag of the
  text whose fence markers have been removed: its path is the path of that tag, and its
  content is the trimmed body of that tag, the whole text between the end of the opening tag
  and the first closing tag after it.  Applying the directive to a path with no existing file
  and reading the path gives exactly that content, when the environment rejects none of
  \<open>mkdir\<close>, \<open>writeFile\<close> and \<open>readFile\<close>.
\<close>

theorem written_content_is_trimmed_capture:
  assumes "u \<in> set (extract_updates content)" and "utype u = TWrite"
    and "files w (resolve (upath u)) = None"
    and "flt (Mkdir (dirname (resolve (upath u)))) = None"
    and "flt (WriteFile (resolve (upath u))) = None"
    and "rflt (ReadFile (resolve (upath u))) = None"
  shows "\<exists>pre kw gap attr q1 q2 gap2 body close post.
           cleanedContent content
             = pre @ render_tag (FileTag kw gap attr q1 (upath u) q2 gap2 body close) @ post
         \<and> tag_read (FileTag kw gap attr q1 (upath u) q2 gap2 body close) post
         \<and> ucontent u = Some (trim body)
         \<and> readFile rflt (resolve (upath u)) (apply_update flt b resolve dirname u w)
             = Inr (trim body)"
proof -
  from assms(1,2) obtain path body where pb: "(path, body) \<in> set (file_matches (cleanedContent content))"
    and u: "u = \<lparr>utype = TWrite, upath = path, ucontent = Some (trim body)\<rparr>"
    by (auto simp: extract_updates_def)
  from file_matches_read[OF pb] obtain pre kw gap attr q1 q2 gap2 close post
    where 1: "cleanedContent content
                = pre @ render_tag (FileTag kw gap attr q1 (upath u) q2 gap2 body close) @ post"
      and 2: "tag_read (FileTag kw gap attr q1 (upath u) q2 gap2 body close) post"
    unfolding u by auto
  from u have 3: "ucontent u = Some (trim body)" by simp
  from assms(2) 3 assms(4-6)
  have 4: "readFile rflt (resolve (upath u)) (apply_update flt b resolve dirname u w)
           = Inr (trim body)"
    by (rule write_then_read)
  from 1 2 3 4 show ?thesis by blast
qed

theorem written_content_is_trimmed_capture_witness:
  "\<lparr>utype = TWrite, upath = ''a.txt'', ucontent = Some ''hello''\<rparr>
     \<in> set (extract_updates sample_reply)
   \<and> readFile (\<lambda>_. None) (in_w ''a.txt'')
        (apply_update (\<lambda>_. None) False in_w dir_w
           \<lparr>utype = TWrite, upath = ''a.txt'', ucontent = Some ''hello''\<rparr>
           \<lparr>files = Map.empty, dirs = {''/w''}, console = []\<rparr>)
      = Inr ''hello''"
  using written_content_is_trimmed_capture
    [of "\<lparr>utype = TWrite, upath = ''a.txt'', ucontent = Some ''hello''\<rparr>" sample_reply
        "\<lparr>files = Map.empty, dirs = {''/w''}, console = []\<rparr>" in_w "\<lambda>_. None" dir_w
        "\<lambda>_. None" False]
  by (auto simp: extract_sample_reply)

text \<open>
  C6, as the claim has it, fails on a body that holds a fence marker: the three backticks
  between \<open>x\<close> and \<open>y\<close> are removed before the tags are looked for, so the content is
  \<open>xy\<close> and not the trimmed body.
\<close>

theorem fences_inside_body_are_removed:
  "extract_updates (''<file path='' @ [dq] @ ''a.md'' @ [dq] @ ''>x```y</file>'')
   = [\<lparr>utype = TWrite, upath = ''a.md'', ucontent = Some ''xy''\<rparr>]
   \<and> trim ''x```y'' \<noteq> ''xy''"
  by code_simp

end
